theory Spec2Isabelle
  imports Main "HOL-Library.Word"
begin

unbundle bit_operations_syntax

section \<open>JavaScript numbers as far as the bytecode back-end uses them\<close>

text \<open>
  The back-end (\<^verbatim>\<open>src/lox2\<close>) is TypeScript: every number is an IEEE-754 double.
  The integer-valued doubles the hash function and the hash table work with are modelled
  as \<^typ>\<open>int\<close>, with the two places where a double is not an unbounded integer written out:
  \<^item> the bitwise operators \<^verbatim>\<open>^\<close>, \<^verbatim>\<open>|\<close> and \<^verbatim>\<open>&\<close> first convert both operands with ToInt32
    (reduction modulo \<open>2 ^ 32\<close>, read as two's complement) and return a signed 32-bit value;
  \<^item> a product of two integers is the exact product rounded to the nearest double, that is
    to 53 significant bits, ties to even.
\<close>

definition toInt32 :: "int \<Rightarrow> int" where
  "toInt32 x = sint (word_of_int x :: 32 word)"

definition js_xor :: "int \<Rightarrow> int \<Rightarrow> int" where
  "js_xor a b = sint ((word_of_int a :: 32 word) XOR word_of_int b)"

definition js_or :: "int \<Rightarrow> int \<Rightarrow> int" where
  "js_or a b = sint ((word_of_int a :: 32 word) OR word_of_int b)"

definition js_and :: "int \<Rightarrow> int \<Rightarrow> int" where
  "js_and a b = sint ((word_of_int a :: 32 word) AND word_of_int b)"

fun bitLength :: "nat \<Rightarrow> nat" where
  "bitLength n = (if n = 0 then 0 else Suc (bitLength (n div 2)))"

declare bitLength.simps [simp del]

text \<open>\<open>roundAt e m\<close> rounds \<open>m\<close> to the nearest multiple of \<open>2 ^ e\<close>, ties to the even quotient.\<close>

definition roundAt :: "nat \<Rightarrow> nat \<Rightarrow> nat" where
  "roundAt e m =
     (if 2 ^ e < 2 * (m mod 2 ^ e) \<or> (2 * (m mod 2 ^ e) = 2 ^ e \<and> odd (m div 2 ^ e))
      then (m div 2 ^ e + 1) * 2 ^ e else (m div 2 ^ e) * 2 ^ e)"

text \<open>The double nearest to an integer: 53 significant bits are kept.\<close>

definition roundDouble :: "int \<Rightarrow> int" where
  "roundDouble x = sgn x * int (roundAt (bitLength (nat \<bar>x\<bar>) - 53) (nat \<bar>x\<bar>))"

definition js_mul :: "int \<Rightarrow> int \<Rightarrow> int" where
  "js_mul a b = roundDouble (a * b)"

section \<open>\<^verbatim>\<open>hashString\<close> (chunk.ts)\<close>

text \<open>
  \<^verbatim>\<open>
  export function hashString(key: string) {
    let hash = 2166136261;
    for (let i = 0; i < key.length; i++) {
      hash ^= key.charCodeAt(i);
      hash *= 16777619;
    }
    return hash | 0;
  }
  \<close>
  The loop over the characters is a recursion over the string; \<^verbatim>\<open>charCodeAt\<close> is
  \<^const>\<open>of_char\<close>.
\<close>

fun hashString_loop :: "int \<Rightarrow> string \<Rightarrow> int" where
  "hashString_loop hash [] = hash"
| "hashString_loop hash (c # cs) =
     hashString_loop (js_mul (js_xor hash (of_char c)) 16777619) cs"

definition hashString :: "string \<Rightarrow> int" where
  "hashString key = js_or (hashString_loop 2166136261 key) 0"

text \<open>
  The 32-bit FNV-1a hash as the specification words it: offset basis 2166136261, for each
  character an exclusive or with its code and then a multiplication by the prime 16777619,
  every step modulo \<open>2 ^ 32\<close>; the result is read as a signed 32-bit integer.
\<close>

fun fnv1a_loop :: "32 word \<Rightarrow> string \<Rightarrow> 32 word" where
  "fnv1a_loop h [] = h"
| "fnv1a_loop h (c # cs) = fnv1a_loop ((h XOR of_char c) * 16777619) cs"

definition fnv1a_32 :: "string \<Rightarrow> int" where
  "fnv1a_32 key = sint (fnv1a_loop 2166136261 key)"


section \<open>The scanner (\<^verbatim>\<open>src/lox2/scanner.ts\<close>)\<close>

text \<open>
  The token kinds of \<^verbatim>\<open>enum TokenType\<close>, each prefixed with \<open>T_\<close>. \<^verbatim>\<open>KEYWORDS\<close> is a plain
  object, so \<^verbatim>\<open>KEYWORDS[text]\<close> also finds the properties inherited from
  \<^verbatim>\<open>Object.prototype\<close>; an identifier spelled like one of them gets that property as its
  type, which is \<open>T_INHERITED\<close> here. Under Deno, which runs the program, \<^verbatim>\<open>__proto__\<close> is not
  a property of \<^verbatim>\<open>Object.prototype\<close>.
\<close>

datatype TokenType =
    T_LEFT_PAREN | T_RIGHT_PAREN | T_LEFT_BRACE | T_RIGHT_BRACE | T_COMMA | T_DOT | T_MINUS | T_PLUS
  | T_SEMICOLON | T_SLASH | T_STAR
  | T_BANG | T_BANG_EQUAL | T_EQUAL | T_EQUAL_EQUAL | T_GREATER | T_GREATER_EQUAL | T_LESS | T_LESS_EQUAL
  | T_IDENTIFIER | T_STRING | T_NUMBER
  | T_AND | T_CLASS | T_ELSE | T_FALSE | T_FUN | T_FOR | T_IF | T_NIL | T_OR | T_PRINT | T_RETURN | T_SUPER | T_THIS
  | T_TRUE | T_VAR | T_WHILE
  | T_ERROR | T_EOF
  | T_INHERITED string

record Token =
  type :: TokenType
  lexeme :: string
  line :: nat
  column :: int

text \<open>
  The fields of \<^verbatim>\<open>class Scanner\<close>. \<^verbatim>\<open>source[i]\<close> is \<^verbatim>\<open>undefined\<close> at and beyond the end of the
  source, \<open>None\<close> in \<open>charAt\<close>. \<^verbatim>\<open>done\<close> is \<open>isDone\<close>, \<^verbatim>\<open>this.current++\<close> is \<open>bump\<close>
  and \<^verbatim>\<open>identifier\<close> is \<open>scanIdentifier\<close>.
\<close>

record Scanner =
  source :: string
  start :: nat
  current :: nat
  line :: nat
  lineStart :: nat

definition newScanner :: "string \<Rightarrow> Scanner" where
  "newScanner src = \<lparr>source = src, start = 0, current = 0, line = 1, lineStart = 0\<rparr>"

definition charAt :: "string \<Rightarrow> nat \<Rightarrow> char option" where
  "charAt src i = (if i < length src then Some (src ! i) else None)"

definition substring :: "string \<Rightarrow> nat \<Rightarrow> nat \<Rightarrow> string" where
  "substring src a b = take (max a b - min a b) (drop (min a b) src)"

definition isDone :: "Scanner \<Rightarrow> bool" where
  "isDone s = (current s \<ge> length (source s))"

definition peekChar :: "Scanner \<Rightarrow> nat \<Rightarrow> char option" where
  "peekChar s offset = charAt (source s) (current s + offset)"

definition bump :: "Scanner \<Rightarrow> Scanner" where
  "bump s = s\<lparr>current := current s + 1\<rparr>"

definition match :: "Scanner \<Rightarrow> char \<Rightarrow> bool \<times> Scanner" where
  "match s ch = (if isDone s \<or> peekChar s 0 \<noteq> Some ch then (False, s) else (True, bump s))"

definition error :: "Scanner \<Rightarrow> string \<Rightarrow> Token" where
  "error s message =
     \<lparr>type = T_ERROR, lexeme = message, line = Scanner.line s,
      column = int (current s) - int (lineStart s)\<rparr>"

definition token :: "Scanner \<Rightarrow> TokenType \<Rightarrow> Token" where
  "token s ty =
     \<lparr>type = ty, lexeme = substring (source s) (start s) (current s), line = Scanner.line s,
      column = int (current s) - int (lineStart s)\<rparr>"

definition nextLine :: "Scanner \<Rightarrow> Scanner" where
  "nextLine s = s\<lparr>line := Scanner.line s + 1, lineStart := current s\<rparr>"

definition isDigit :: "char option \<Rightarrow> bool" where
  "isDigit ch = (case ch of None \<Rightarrow> False
     | Some c \<Rightarrow> (of_char (CHR ''0'') :: nat) \<le> of_char c \<and> (of_char c :: nat) \<le> of_char (CHR ''9''))"

definition isAlpha :: "char option \<Rightarrow> bool" where
  "isAlpha ch = (case ch of None \<Rightarrow> False
     | Some c \<Rightarrow>
         ((of_char (CHR ''A'') :: nat) \<le> of_char c \<and> (of_char c :: nat) \<le> of_char (CHR ''Z''))
       \<or> ((of_char (CHR ''a'') :: nat) \<le> of_char c \<and> (of_char c :: nat) \<le> of_char (CHR ''z''))
       \<or> c = CHR ''_'')"

text \<open>
  The loops that stop at the end of the source: the comment loop of \<^verbatim>\<open>skipWhiteSpace\<close>
  (\<^verbatim>\<open>while (!this.done() && this.peek() !== "\\n") this.current++\<close>) and the digit and
  identifier loops of \<^verbatim>\<open>number\<close> and \<^verbatim>\<open>identifier\<close>, where \<^verbatim>\<open>isDigit(undefined)\<close> and
  \<^verbatim>\<open>isAlpha(undefined)\<close> are false.
\<close>

function skipComment :: "Scanner \<Rightarrow> Scanner" where
  "skipComment s =
     (if \<not> isDone s \<and> peekChar s 0 \<noteq> Some (CHR 0x0A) then skipComment (bump s) else s)"
  by pat_completeness auto
termination
  by (relation "measure (\<lambda>s. length (source s) - current s)")
     (auto simp: isDone_def bump_def)

function skipDigits :: "Scanner \<Rightarrow> Scanner" where
  "skipDigits s = (if isDigit (peekChar s 0) then skipDigits (bump s) else s)"
  by pat_completeness auto
termination
  by (relation "measure (\<lambda>s. length (source s) - current s)")
     (auto simp: isDigit_def peekChar_def charAt_def bump_def split: option.splits if_splits)

function skipAlphaNumeric :: "Scanner \<Rightarrow> Scanner" where
  "skipAlphaNumeric s =
     (if isAlpha (peekChar s 0) \<or> isDigit (peekChar s 0) then skipAlphaNumeric (bump s) else s)"
  by pat_completeness auto
termination
  by (relation "measure (\<lambda>s. length (source s) - current s)")
     (auto simp: isDigit_def isAlpha_def peekChar_def charAt_def bump_def
           split: option.splits if_splits)

declare skipComment.simps [simp del] skipDigits.simps [simp del]
  skipAlphaNumeric.simps [simp del]

lemma skipComment_stop: "isDone s \<or> peekChar s 0 = Some (CHR 0x0A) \<Longrightarrow> skipComment s = s"
  by (subst skipComment.simps) auto

lemma skipComment_step:
  "\<not> isDone s \<Longrightarrow> peekChar s 0 \<noteq> Some (CHR 0x0A) \<Longrightarrow> skipComment s = skipComment (bump s)"
  by (subst skipComment.simps) auto

lemma skipComment_source: "source (skipComment s) = source s"
proof (induction s rule: skipComment.induct)
  case (1 s)
  show ?case
  proof (cases "\<not> isDone s \<and> peekChar s 0 \<noteq> Some (CHR 0x0A)")
    case True
    with 1 have "source (skipComment (bump s)) = source (bump s)" by simp
    with True show ?thesis by (simp add: skipComment_step bump_def)
  next
    case False
    then show ?thesis by (simp add: skipComment_stop)
  qed
qed

lemma skipComment_current: "current s \<le> current (skipComment s)"
proof (induction s rule: skipComment.induct)
  case (1 s)
  show ?case
  proof (cases "\<not> isDone s \<and> peekChar s 0 \<noteq> Some (CHR 0x0A)")
    case True
    with 1 have "current (bump s) \<le> current (skipComment (bump s))" by simp
    with True show ?thesis by (simp add: skipComment_step bump_def)
  next
    case False
    then show ?thesis by (simp add: skipComment_stop)
  qed
qed

lemma skipComment_advances:
  assumes "peekChar s 0 = Some (CHR ''/'')"
  shows "current s < current (skipComment s)"
proof -
  from assms have nd: "\<not> isDone s" by (auto simp: peekChar_def charAt_def isDone_def split: if_splits)
  from assms nd have "skipComment s = skipComment (bump s)"
    by (simp add: skipComment_step)
  moreover have "current (bump s) \<le> current (skipComment (bump s))" by (rule skipComment_current)
  ultimately show ?thesis by (simp add: bump_def)
qed

function skipWhiteSpace :: "Scanner \<Rightarrow> Scanner" where
  "skipWhiteSpace s =
     (if peekChar s 0 = Some (CHR 0x0A) then skipWhiteSpace (bump (nextLine s))
      else if peekChar s 0 = Some (CHR '' '') \<or> peekChar s 0 = Some (CHR 0x0D) \<or> peekChar s 0 = Some (CHR 0x09)
        then skipWhiteSpace (bump s)
      else if peekChar s 0 = Some (CHR ''/'')
        then (if peekChar s 1 \<noteq> Some (CHR ''/'') then s else skipWhiteSpace (skipComment s))
      else s)"
  by pat_completeness auto
termination
proof (relation "measure (\<lambda>s. length (source s) - current s)", goal_cases)
  case 1
  show ?case by simp
next
  case (2 s)
  then show ?case by (auto simp: peekChar_def charAt_def bump_def nextLine_def split: if_splits)
next
  case (3 s)
  then show ?case by (auto simp: peekChar_def charAt_def bump_def split: if_splits)
next
  case (4 s)
  then have p: "peekChar s 0 = Some (CHR ''/'')" by simp
  then have "current s < length (source s)"
    by (auto simp: peekChar_def charAt_def split: if_splits)
  moreover from p have "current s < current (skipComment s)" by (rule skipComment_advances)
  ultimately show ?case by (simp add: skipComment_source)
qed

declare skipWhiteSpace.simps [simp del]

text \<open>
  \<^verbatim>\<open>
  string() {
    while (this.peek() !== '"') {
      if (this.peek() === "\\n") this.nextLine();
      this.current++;
    }
    if (this.done()) {
      return this.error("Unfinished string");
    }
    this.current++;
    return this.token(TokenType.STRING);
  }
  \<close>
  The loop compares \<^verbatim>\<open>peek()\<close> with the quote only: at the end of the source \<^verbatim>\<open>peek()\<close> is
  \<^verbatim>\<open>undefined\<close>, which is not the quote, and the loop goes on. It may run forever, so it is
  a partial function: \<open>None\<close> is "does not return".
\<close>

partial_function (option) string_loop :: "Scanner \<Rightarrow> Scanner option" where
  "string_loop s =
     (if peekChar s 0 \<noteq> Some (CHR 0x22)
      then string_loop (bump (if peekChar s 0 = Some (CHR 0x0A) then nextLine s else s))
      else Some s)"

definition string :: "Scanner \<Rightarrow> (Token \<times> Scanner) option" where
  "string s =
     (case string_loop s of None \<Rightarrow> None
      | Some s1 \<Rightarrow>
          if isDone s1 then Some (error s1 ''Unfinished string'', s1)
          else Some (token (bump s1) T_STRING, bump s1))"



definition number :: "Scanner \<Rightarrow> Token \<times> Scanner" where
  "number s =
     (let s1 = skipDigits s;
          s2 = (if peekChar s1 0 = Some (CHR ''.'') \<and> isDigit (peekChar s1 1)
                then skipDigits (bump s1) else s1)
      in (token s2 T_NUMBER, s2))"

definition KEYWORDS :: "(string \<times> TokenType) list" where
  "KEYWORDS =
     [(''and'', T_AND), (''class'', T_CLASS), (''else'', T_ELSE), (''false'', T_FALSE), (''for'', T_FOR),
      (''fun'', T_FUN), (''if'', T_IF), (''nil'', T_NIL), (''or'', T_OR), (''print'', T_PRINT),
      (''return'', T_RETURN), (''super'', T_SUPER), (''this'', T_THIS), (''true'', T_TRUE),
      (''var'', T_VAR), (''while'', T_WHILE)]"

definition objectPrototype :: "string list" where
  "objectPrototype =
     [''constructor'', ''hasOwnProperty'', ''isPrototypeOf'', ''propertyIsEnumerable'',
      ''toLocaleString'', ''toString'', ''valueOf'', ''__defineGetter__'',
      ''__defineSetter__'', ''__lookupGetter__'', ''__lookupSetter__'']"

definition scanIdentifier :: "Scanner \<Rightarrow> Token \<times> Scanner" where
  "scanIdentifier s =
     (let s1 = skipAlphaNumeric s;
          text = substring (source s1) (start s1) (current s1);
          ty = (case map_of KEYWORDS text of Some t \<Rightarrow> t
                | None \<Rightarrow> if text \<in> set objectPrototype then T_INHERITED text else T_IDENTIFIER)
      in (token s1 ty, s1))"

definition twoChar :: "Scanner \<Rightarrow> TokenType \<Rightarrow> TokenType \<Rightarrow> Token \<times> Scanner" where
  "twoChar s yes no = (case match s (CHR ''='') of (m, s1) \<Rightarrow> (token s1 (if m then yes else no), s1))"

definition scanToken :: "Scanner \<Rightarrow> (Token \<times> Scanner) option" where
  "scanToken s0 =
     (let s1 = skipWhiteSpace s0; s2 = s1\<lparr>start := current s1\<rparr> in
      if isDone s2 then Some (token s2 T_EOF, s2)
      else
        let ch = source s2 ! current s2; s = bump s2 in
        if ch = CHR ''('' then Some (token s T_LEFT_PAREN, s)
        else if ch = CHR '')'' then Some (token s T_RIGHT_PAREN, s)
        else if ch = CHR ''{'' then Some (token s T_LEFT_BRACE, s)
        else if ch = CHR ''}'' then Some (token s T_RIGHT_BRACE, s)
        else if ch = CHR '','' then Some (token s T_COMMA, s)
        else if ch = CHR ''.'' then Some (token s T_DOT, s)
        else if ch = CHR ''-'' then Some (token s T_MINUS, s)
        else if ch = CHR ''+'' then Some (token s T_PLUS, s)
        else if ch = CHR '';'' then Some (token s T_SEMICOLON, s)
        else if ch = CHR ''*'' then Some (token s T_STAR, s)
        else if ch = CHR ''!'' then Some (twoChar s T_BANG_EQUAL T_BANG)
        else if ch = CHR ''='' then Some (twoChar s T_EQUAL_EQUAL T_EQUAL)
        else if ch = CHR ''<'' then Some (twoChar s T_LESS_EQUAL T_LESS)
        else if ch = CHR ''>'' then Some (twoChar s T_GREATER_EQUAL T_GREATER)
        else if ch = CHR ''/'' then
          (case match s (CHR ''/'') of
             (True, sa) \<Rightarrow> Some (error sa ''Missed comment'', sa)
           | (False, sa) \<Rightarrow>
               (case match sa (CHR ''*'') of
                  (True, sb) \<Rightarrow> Some (error sb ''Missed comment'', sb)
                | (False, sb) \<Rightarrow> Some (token sb T_SLASH, sb)))
        else if ch = CHR 0x22 then string s
        else if isDigit (Some ch) then Some (number s)
        else if isAlpha (Some ch) then Some (scanIdentifier s)
        else Some (error s (''Unexpected character '' @ [ch]), s))"


section \<open>Values and objects (\<^verbatim>\<open>src/lox2/chunk.ts\<close>)\<close>

text \<open>
  What a call can do besides returning: throw a host exception (a JavaScript \<^verbatim>\<open>Error\<close>,
  \<^verbatim>\<open>RangeError\<close> or \<^verbatim>\<open>TypeError\<close>, which nothing in the repository catches) or never return.
  \<open>Unmodelled\<close> marks the two places where the model stops: a TypeScript cast \<^verbatim>\<open>as T\<close> that is
  wrong at run time and is not caught by a \<^verbatim>\<open>TypeError\<close> on the spot, and an instruction whose
  operand bytes are missing from the chunk. The compiler produces neither.
\<close>

datatype 'a result = Returns 'a | Throws string | Diverges | Unmodelled

definition rbind :: "'a result \<Rightarrow> ('a \<Rightarrow> 'b result) \<Rightarrow> 'b result" where
  "rbind m f =
     (case m of Returns x \<Rightarrow> f x | Throws e \<Rightarrow> Throws e | Diverges \<Rightarrow> Diverges
      | Unmodelled \<Rightarrow> Unmodelled)"

text \<open>
  Objects are compared by reference (\<^verbatim>\<open>===\<close>), so every object carries the reference
  \<^verbatim>\<open>new\<close> gave it. A \<^verbatim>\<open>LoxString\<close> is immutable (\<^verbatim>\<open>readonly chars\<close>, \<^verbatim>\<open>readonly hash\<close>): it is
  its reference together with its two fields. A number is an IEEE-754 double, kept as its
  64 bits. \<open>Undefined\<close> is JavaScript's \<^verbatim>\<open>undefined\<close>: not a \<^verbatim>\<open>Value\<close> for TypeScript, but
  what a hole of an array and \<^verbatim>\<open>pop()\<close> of an empty array yield at run time.
\<close>

type_synonym double = "64 word"

datatype LoxString = LoxString (sref: nat) (chars: string) (hash: int)

datatype Value =
    Undefined
  | Nil
  | Bool bool
  | Number double
  | ObjString LoxString
  | ObjFunction LoxFunction
  | ObjNative nat
  | ObjClosure nat
  | ObjClass nat
  | ObjInstance nat
  | ObjBoundMethod nat Value Value
and LoxFunction =
    LoxFunction (fref: nat) (arity: int) (upvalueCount: int) (code: "nat list")
      (lines: "nat list") (constants: "Value list") (name: "LoxString option")

section \<open>The hash table (\<^verbatim>\<open>class Table\<close>, chunk.ts)\<close>

text \<open>
  \<^verbatim>\<open>keys\<close> and \<^verbatim>\<open>values\<close> are JavaScript arrays that the class only reads and writes by
  index (never through \<^verbatim>\<open>length\<close>): maps from the index to the element, \<open>None\<close> and
  \<open>Undefined\<close> where the array has a hole. \<^verbatim>\<open>new Array(capacity)\<close> is all holes, and
  \<^verbatim>\<open>delete this.keys[index]\<close> makes a hole again. The field \<^verbatim>\<open>values\<close> is \<open>vals\<close> (\<open>values\<close> is a command of Isabelle), and the
  methods carry the class name, since
  \<open>set\<close> and \<open>find\<close> are constants of HOL.
\<close>

record Table =
  count :: int
  capacity :: int
  keys :: "int \<Rightarrow> LoxString option"
  vals :: "int \<Rightarrow> Value"

definition newTable :: "Table" where
  "newTable = \<lparr>count = 0, capacity = 0, keys = (\<lambda>_. None), vals = (\<lambda>_. Undefined)\<rparr>"

text \<open>
  \<^verbatim>\<open>
  static #find(keys, values, mask, key): number {
    let tombstone: number | undefined = undefined;
    let index = key.hash & mask;
    for (;;) {
      const key2 = keys[index];
      const value = values[index];
      if (key2 === undefined) {
        if (value === undefined) {
          return tombstone === undefined ? index : tombstone;
        } else tombstone = index;
      } else if (key === key2) return index;
      index = (index + 1) & mask;
    }
  }
  \<close>
  The loop has no bound, so it is a partial function; \<open>None\<close> is "does not return".
\<close>

partial_function (option) Table_find_loop ::
  "(int \<Rightarrow> LoxString option) \<Rightarrow> (int \<Rightarrow> Value) \<Rightarrow> int \<Rightarrow> LoxString \<Rightarrow> int option \<Rightarrow> int
     \<Rightarrow> int option" where
  "Table_find_loop ks vs msk key tombstone index =
     (case ks index of
        None \<Rightarrow>
          if vs index = Undefined
          then Some (case tombstone of None \<Rightarrow> index | Some t \<Rightarrow> t)
          else Table_find_loop ks vs msk key (Some index) (js_and (index + 1) msk)
      | Some key2 \<Rightarrow>
          if sref key = sref key2 then Some index
          else Table_find_loop ks vs msk key tombstone (js_and (index + 1) msk))"

definition Table_find ::
  "(int \<Rightarrow> LoxString option) \<Rightarrow> (int \<Rightarrow> Value) \<Rightarrow> int \<Rightarrow> LoxString \<Rightarrow> int option" where
  "Table_find ks vs msk key = Table_find_loop ks vs msk key None (js_and (hash key) msk)"

text \<open>
  \<^verbatim>\<open>#grow(capacity)\<close>: \<^verbatim>\<open>new Array(capacity)\<close> throws a \<^verbatim>\<open>RangeError\<close> when the length is above
  \<open>2 ^ 32 - 1\<close>. The test \<^verbatim>\<open>this.keys === null\<close> is never true (the fields start as \<^verbatim>\<open>[]\<close>).
  The loop runs \<open>i\<close> over the old capacity and fills the new arrays, counting in \<open>c\<close>.
\<close>

function Table_grow_loop ::
  "Table \<Rightarrow> int \<Rightarrow> int \<Rightarrow> (int \<Rightarrow> LoxString option) \<times> (int \<Rightarrow> Value) \<times> int
     \<Rightarrow> ((int \<Rightarrow> LoxString option) \<times> (int \<Rightarrow> Value) \<times> int) result" where
  "Table_grow_loop t msk i (ks, vs, c) =
     (if i < capacity t then
        (case keys t i of
           None \<Rightarrow> Table_grow_loop t msk (i + 1) (ks, vs, c)
         | Some key \<Rightarrow>
             (case Table_find ks vs msk key of
                None \<Rightarrow> Diverges
              | Some index \<Rightarrow>
                  Table_grow_loop t msk (i + 1)
                    (ks(index \<mapsto> key), vs(index := vals t i), c + 1)))
      else Returns (ks, vs, c))"
  by pat_completeness auto
termination
  by (relation "measure (\<lambda>(t, msk, i, acc). nat (capacity t - i))") auto

declare Table_grow_loop.simps [simp del]

definition Table_grow :: "Table \<Rightarrow> int \<Rightarrow> Table result" where
  "Table_grow t cap =
     (if cap > 2 ^ 32 - 1 then Throws ''RangeError: Invalid array length''
      else rbind (Table_grow_loop t (cap - 1) 0 (\<lambda>_. None, \<lambda>_. Undefined, 0))
             (\<lambda>(ks, vs, c). Returns \<lparr>count = c, capacity = cap, keys = ks, vals = vs\<rparr>))"

text \<open>
  \<^verbatim>\<open>findString(chars, hash)\<close>: a loop bounded by the capacity; the exception after it is
  \<open>Throws ''wtf!?''\<close>.
\<close>

function Table_findString_loop ::
  "Table \<Rightarrow> string \<Rightarrow> int \<Rightarrow> int \<Rightarrow> int \<Rightarrow> LoxString option result" where
  "Table_findString_loop t cs h i index =
     (if i < capacity t then
        (case keys t index of
           None \<Rightarrow>
             if vals t index = Undefined then Returns None
             else Table_findString_loop t cs h (i + 1) (js_and (index + 1) (capacity t - 1))
         | Some key \<Rightarrow>
             if hash key = h \<and> chars key = cs then Returns (Some key)
             else Table_findString_loop t cs h (i + 1) (js_and (index + 1) (capacity t - 1)))
      else Throws ''wtf!?'')"
  by pat_completeness auto
termination
  by (relation "measure (\<lambda>(t, cs, h, i, index). nat (capacity t - i))") auto

declare Table_findString_loop.simps [simp del]

definition Table_findString :: "Table \<Rightarrow> string \<Rightarrow> int \<Rightarrow> LoxString option result" where
  "Table_findString t cs h =
     (if count t = 0 then Returns None
      else Table_findString_loop t cs h 0 (js_and h (capacity t - 1)))"

text \<open>\<^verbatim>\<open>get(key)\<close>: \<open>Undefined\<close> is the \<^verbatim>\<open>undefined\<close> of an absent key.\<close>

definition Table_get :: "Table \<Rightarrow> LoxString \<Rightarrow> Value result" where
  "Table_get t key =
     (if count t = 0 then Returns Undefined
      else case Table_find (keys t) (vals t) (capacity t - 1) key of
             None \<Rightarrow> Diverges
           | Some index \<Rightarrow>
               if keys t index = None then Returns Undefined else Returns (vals t index))"

text \<open>
  \<^verbatim>\<open>set(key, value)\<close>, which returns whether the key is new. \<^verbatim>\<open>MAX_LOAD\<close> is 0.75, and
  \<^verbatim>\<open>this.count + 1 > this.capacity * MAX_LOAD\<close> is \<open>4 * (count + 1) > 3 * capacity\<close>.
\<close>

definition Table_set :: "Table \<Rightarrow> LoxString \<Rightarrow> Value \<Rightarrow> (bool \<times> Table) result" where
  "Table_set t key v =
     rbind (if 4 * (count t + 1) > 3 * capacity t
            then Table_grow t (if capacity t < 8 then 8 else capacity t * 2)
            else Returns t)
       (\<lambda>t1. case Table_find (keys t1) (vals t1) (capacity t1 - 1) key of
                None \<Rightarrow> Diverges
              | Some index \<Rightarrow>
                  let isNewKey = (keys t1 index = None);
                      t2 = (if isNewKey
                            then t1\<lparr>keys := (keys t1)(index \<mapsto> key),
                                    count := (if vals t1 index = Undefined
                                              then count t1 + 1 else count t1)\<rparr>
                            else t1)
                  in Returns (isNewKey, t2\<lparr>vals := (vals t2)(index := v)\<rparr>))"

definition Table_delete :: "Table \<Rightarrow> LoxString \<Rightarrow> (bool \<times> Table) result" where
  "Table_delete t key =
     (if count t = 0 then Returns (False, t)
      else case Table_find (keys t) (vals t) (capacity t - 1) key of
             None \<Rightarrow> Diverges
           | Some index \<Rightarrow>
               if keys t index = None then Returns (False, t)
               else Returns (True, t\<lparr>keys := (keys t)(index := None)\<rparr>))"

text \<open>
  \<^verbatim>\<open>addAll(other)\<close> sets every entry that the generator \<^verbatim>\<open>other.entries()\<close> yields, in index
  order. \<open>Table_addAll\<close> is the case of two different table objects: the sets leave \<open>other\<close>
  alone.
\<close>

function Table_addAll_loop :: "Table \<Rightarrow> Table \<Rightarrow> int \<Rightarrow> Table result" where
  "Table_addAll_loop t other i =
     (if i < capacity other then
        (case keys other i of
           None \<Rightarrow> Table_addAll_loop t other (i + 1)
         | Some key \<Rightarrow>
             (case Table_set t key (vals other i) of
                Returns (isNew, t1) \<Rightarrow> Table_addAll_loop t1 other (i + 1)
              | Throws e \<Rightarrow> Throws e
              | Diverges \<Rightarrow> Diverges
              | Unmodelled \<Rightarrow> Unmodelled))
      else Returns t)"
  by pat_completeness auto
termination
  by (relation "measure (\<lambda>(t, other, i). nat (capacity other - i))") auto

declare Table_addAll_loop.simps [simp del]

definition Table_addAll :: "Table \<Rightarrow> Table \<Rightarrow> Table result" where
  "Table_addAll t other = Table_addAll_loop t other 0"

text \<open>
  \<^verbatim>\<open>t.addAll(t)\<close>, the case of one table object (\<^verbatim>\<open>INHERIT\<close> with a class on the stack twice):
  the generator reads \<^verbatim>\<open>this.capacity\<close>, \<^verbatim>\<open>this.keys[i]\<close> and \<^verbatim>\<open>this.values[i]\<close> anew at every
  turn, so it sees what the sets before have made of the table, a doubled capacity and
  the new arrays included. The loop has no fixed bound; \<open>None\<close> is "does not return".
\<close>

partial_function (option) Table_addAll_self_loop :: "Table \<Rightarrow> int \<Rightarrow> Table result option" where
  "Table_addAll_self_loop t i =
     (if i < capacity t then
        (case keys t i of
           None \<Rightarrow> Table_addAll_self_loop t (i + 1)
         | Some key \<Rightarrow>
             (case Table_set t key (vals t i) of
                Returns (isNew, t1) \<Rightarrow> Table_addAll_self_loop t1 (i + 1)
              | Throws e \<Rightarrow> Some (Throws e)
              | Diverges \<Rightarrow> Some Diverges
              | Unmodelled \<Rightarrow> Some Unmodelled))
      else Some (Returns t))"

definition Table_addAll_self :: "Table \<Rightarrow> Table result" where
  "Table_addAll_self t = (case Table_addAll_self_loop t 0 of None \<Rightarrow> Diverges | Some r \<Rightarrow> r)"

text \<open>
  \<^verbatim>\<open>Pool.intern(name)\<close>. \<^verbatim>\<open>new LoxString(name, hash)\<close> yields a reference no other object has:
  the caller passes it as \<open>r\<close>.
\<close>

record Pool =
  strings :: Table

definition newPool :: "Pool" where
  "newPool = \<lparr>strings = newTable\<rparr>"

definition intern :: "Pool \<Rightarrow> nat \<Rightarrow> string \<Rightarrow> (LoxString \<times> Pool) result" where
  "intern p r nm =
     (let h = hashString nm in
      rbind (Table_findString (strings p) nm h)
        (\<lambda>found. case found of
            Some key \<Rightarrow> Returns (key, p)
          | None \<Rightarrow>
              let key = LoxString r nm h in
              rbind (Table_set (strings p) key Nil)
                (\<lambda>(isNew, t). Returns (key, p\<lparr>strings := t\<rparr>))))"

section \<open>The virtual machine (\<^verbatim>\<open>src/lox2/vm.ts\<close>)\<close>

subsection \<open>Numbers and values\<close>

text \<open>
  What the VM does with a double apart from arithmetic is decided by its bits: \<^verbatim>\<open>NaN\<close> has
  all exponent bits set and a non-zero mantissa, the two zeros have 63 zero bits, and unary
  minus flips the sign bit. Addition, subtraction, multiplication, division, the two
  comparisons and the conversion to a string are the host's and come in as \<open>Host\<close>; so do
  the native functions (\<^verbatim>\<open>clock\<close> reads the time, so a native also gets the number of native
  calls made before it).
\<close>

definition isNaN :: "double \<Rightarrow> bool" where
  "isNaN x = (take_bit 11 (drop_bit 52 x) = 2047 \<and> take_bit 52 x \<noteq> 0)"

definition isZero :: "double \<Rightarrow> bool" where
  "isZero x = (take_bit 63 x = 0)"

definition negate :: "double \<Rightarrow> double" where
  "negate x = x XOR push_bit 63 1"

record Host =
  num_add :: "double \<Rightarrow> double \<Rightarrow> double"
  num_sub :: "double \<Rightarrow> double \<Rightarrow> double"
  num_mul :: "double \<Rightarrow> double \<Rightarrow> double"
  num_div :: "double \<Rightarrow> double \<Rightarrow> double"
  num_less :: "double \<Rightarrow> double \<Rightarrow> bool"
  num_greater :: "double \<Rightarrow> double \<Rightarrow> bool"
  num_toString :: "double \<Rightarrow> string"
  nativeFn :: "nat \<Rightarrow> nat \<Rightarrow> int \<Rightarrow> Value list \<Rightarrow> Value"

text \<open>JavaScript's \<^verbatim>\<open>if (value)\<close> and \<^verbatim>\<open>a === b\<close> on the values of the VM.\<close>

definition truthy :: "Value \<Rightarrow> bool" where
  "truthy v =
     (case v of Undefined \<Rightarrow> False | Nil \<Rightarrow> False | Bool b \<Rightarrow> b
      | Number x \<Rightarrow> \<not> isZero x \<and> \<not> isNaN x | _ \<Rightarrow> True)"

definition strictEquals :: "Value \<Rightarrow> Value \<Rightarrow> bool" where
  "strictEquals a b =
     (case (a, b) of
        (Undefined, Undefined) \<Rightarrow> True
      | (Nil, Nil) \<Rightarrow> True
      | (Bool x, Bool y) \<Rightarrow> x = y
      | (Number x, Number y) \<Rightarrow> \<not> isNaN x \<and> \<not> isNaN y \<and> (x = y \<or> (isZero x \<and> isZero y))
      | (ObjString s, ObjString t) \<Rightarrow> sref s = sref t
      | (ObjFunction f, ObjFunction g) \<Rightarrow> fref f = fref g
      | (ObjNative m, ObjNative n) \<Rightarrow> m = n
      | (ObjClosure m, ObjClosure n) \<Rightarrow> m = n
      | (ObjClass m, ObjClass n) \<Rightarrow> m = n
      | (ObjInstance m, ObjInstance n) \<Rightarrow> m = n
      | (ObjBoundMethod m _ _, ObjBoundMethod n _ _) \<Rightarrow> m = n
      | _ \<Rightarrow> False)"

definition valueType :: "Value \<Rightarrow> string" where
  "valueType v =
     (case v of Undefined \<Rightarrow> ''undefined'' | Nil \<Rightarrow> ''nil'' | Bool _ \<Rightarrow> ''boolean''
      | Number _ \<Rightarrow> ''number'' | _ \<Rightarrow> ''object'')"

subsection \<open>The state\<close>

text \<open>
  Objects that change after their creation live in stores, indexed by their reference:
  upvalues (\<^verbatim>\<open>index\<close>, \<^verbatim>\<open>next\<close> as \<open>nxt\<close>, \<^verbatim>\<open>closed\<close>), closures (the \<^verbatim>\<open>upvalues\<close> array is filled after
  \<^verbatim>\<open>new Closure\<close>; an element is \<open>None\<close> where the code stored \<^verbatim>\<open>undefined\<close>), classes (the
  method table), instances (the field table \<^verbatim>\<open>fields\<close>, here \<open>ifields\<close>) and call frames (\<^verbatim>\<open>ip\<close>): \<^verbatim>\<open>run\<close> keeps the frame
  object in a local variable, which after \<^verbatim>\<open>resetStack\<close> is no longer in \<^verbatim>\<open>frames\<close>. \<open>nextRef\<close>
  is the reference the next \<^verbatim>\<open>new\<close> returns. \<open>console\<close> collects the lines written by
  \<^verbatim>\<open>console.log\<close> and \<^verbatim>\<open>console.error\<close>, \<open>hostCalls\<close> counts the native calls.
\<close>

record Upvalue =
  index :: int
  nxt :: "nat option"
  closed :: Value

record ClosureObj =
  func :: LoxFunction
  upvalues :: "nat option list"

record ClassObj =
  className :: LoxString
  methods :: Table

record InstanceObj =
  klass :: nat
  ifields :: Table

record CallFrame =
  closure :: nat
  ip :: int
  offset :: int

datatype InterpretResult = OK | COMPILE_ERROR | RUNTIME_ERROR

record VM =
  frames :: "nat list"
  stack :: "Value list"
  stackProps :: "int \<Rightarrow> Value"
  globals :: Table
  initString :: LoxString
  openUpvalues :: "nat option"
  pool :: Pool
  frameObjs :: "nat \<Rightarrow> CallFrame"
  upvalueObjs :: "nat \<Rightarrow> Upvalue"
  closureObjs :: "nat \<Rightarrow> ClosureObj"
  classObjs :: "nat \<Rightarrow> ClassObj"
  instanceObjs :: "nat \<Rightarrow> InstanceObj"
  nextRef :: nat
  hostCalls :: nat
  console :: "string list"

subsection \<open>The value stack, a JavaScript array\<close>

text \<open>
  \<open>stack\<close> holds the elements of the array \<^verbatim>\<open>this.stack\<close>, at the indices from 0 below its
  length. Reading at or beyond the length yields \<^verbatim>\<open>undefined\<close>; \<^verbatim>\<open>pop()\<close> of the empty array
  yields \<^verbatim>\<open>undefined\<close> and leaves it empty; writing at or beyond the length extends the array
  with holes. A negative index is no array index but the key of an ordinary property of the
  array object: \<^verbatim>\<open>this.stack[-1] = v\<close> stores \<open>v\<close> under the key \<^verbatim>\<open>"-1"\<close>, a later
  \<^verbatim>\<open>this.stack[-1]\<close> reads it back, and neither \<^verbatim>\<open>push\<close>, \<^verbatim>\<open>pop\<close> nor an assignment to
  \<^verbatim>\<open>length\<close> touches it. \<open>stackProps\<close> holds these properties (\<open>Undefined\<close> where there is
  none).
\<close>

definition stackGet :: "VM \<Rightarrow> int \<Rightarrow> Value" where
  "stackGet vm i =
     (if i < 0 then stackProps vm i
      else if i < int (length (stack vm)) then stack vm ! nat i
      else Undefined)"

definition stackSet :: "VM \<Rightarrow> int \<Rightarrow> Value \<Rightarrow> VM" where
  "stackSet vm i v =
     (if i < 0 then vm\<lparr>stackProps := (stackProps vm)(i := v)\<rparr>
      else if i < int (length (stack vm)) then vm\<lparr>stack := (stack vm)[nat i := v]\<rparr>
      else vm\<lparr>stack := stack vm @ replicate (nat i - length (stack vm)) Undefined @ [v]\<rparr>)"

definition push :: "VM \<Rightarrow> Value \<Rightarrow> VM" where
  "push vm v = vm\<lparr>stack := stack vm @ [v]\<rparr>"

definition pop :: "VM \<Rightarrow> Value \<times> VM" where
  "pop vm = (if stack vm = [] then (Undefined, vm) else (last (stack vm), vm\<lparr>stack := butlast (stack vm)\<rparr>))"

definition peek :: "VM \<Rightarrow> int \<Rightarrow> Value" where
  "peek vm distance = stackGet vm (int (length (stack vm)) - 1 - distance)"

definition put :: "VM \<Rightarrow> int \<Rightarrow> Value \<Rightarrow> VM" where
  "put vm distance v = stackSet vm (int (length (stack vm)) - 1 - distance) v"

subsection \<open>Printing\<close>

definition digit :: "nat \<Rightarrow> char" where
  "digit d = char_of (48 + d)"

function showNat :: "nat \<Rightarrow> string" where
  "showNat n = (if n < 10 then [digit n] else showNat (n div 10) @ [digit (n mod 10)])"
  by pat_completeness auto
termination
  by (relation "measure id") auto

declare showNat.simps [simp del]

definition showInt :: "int \<Rightarrow> string" where
  "showInt i = (if i < 0 then CHR ''-'' # showNat (nat (- i)) else showNat (nat i))"

definition printFunction :: "LoxFunction \<Rightarrow> string" where
  "printFunction f =
     (case name f of None \<Rightarrow> ''<script>'' | Some n \<Rightarrow> ''<fn '' @ chars n @ ''>'')"

text \<open>The line \<^verbatim>\<open>printValue(x)\<close> writes; \<^verbatim>\<open>this.method.func.print()\<close> of a bound method whose
  method is no closure is a \<^verbatim>\<open>TypeError\<close>.\<close>

definition printValue :: "Host \<Rightarrow> VM \<Rightarrow> Value \<Rightarrow> string result" where
  "printValue host vm x =
     (case x of
        Undefined \<Rightarrow> Returns ''undefined''
      | Nil \<Rightarrow> Returns ''nil''
      | Bool b \<Rightarrow> Returns (if b then ''true'' else ''false'')
      | Number d \<Rightarrow> Returns (num_toString host d)
      | ObjString s \<Rightarrow> Returns (chars s)
      | ObjFunction f \<Rightarrow> Returns (printFunction f)
      | ObjNative n \<Rightarrow> Returns ''<native fn>''
      | ObjClosure c \<Rightarrow> Returns (printFunction (func (closureObjs vm c)))
      | ObjClass c \<Rightarrow> Returns (chars (className (classObjs vm c)))
      | ObjInstance i \<Rightarrow>
          Returns (chars (className (classObjs vm (klass (instanceObjs vm i)))) @ '' instance'')
      | ObjBoundMethod r receiver method \<Rightarrow>
          (case method of ObjClosure c \<Rightarrow> Returns (printFunction (func (closureObjs vm c)))
           | _ \<Rightarrow> Throws ''TypeError''))"

subsection \<open>\<^verbatim>\<open>resetStack\<close>, \<^verbatim>\<open>runtimeError\<close>, \<^verbatim>\<open>call\<close>, \<^verbatim>\<open>callValue\<close>\<close>

definition resetStack :: "VM \<Rightarrow> VM" where
  "resetStack vm = vm\<lparr>stack := [], frames := [], openUpvalues := None\<rparr>"

definition nthOpt :: "'a list \<Rightarrow> int \<Rightarrow> 'a option" where
  "nthOpt xs i = (if 0 \<le> i \<and> i < int (length xs) then Some (xs ! nat i) else None)"

definition traceLine :: "VM \<Rightarrow> nat \<Rightarrow> string" where
  "traceLine vm f =
     (let fr = frameObjs vm f; fn = func (closureObjs vm (closure fr)) in
      ''[line '' @ (case nthOpt (lines fn) (ip fr) of None \<Rightarrow> ''undefined'' | Some l \<Rightarrow> showNat l)
        @ ''] in ''
        @ (case name fn of None \<Rightarrow> ''script'' | Some n \<Rightarrow> chars n @ ''()''))"

definition runtimeError :: "VM \<Rightarrow> string \<Rightarrow> VM" where
  "runtimeError vm message =
     resetStack (vm\<lparr>console := console vm @ [message] @ map (traceLine vm) (rev (frames vm))\<rparr>)"

text \<open>
  \<^verbatim>\<open>
  call(closure: Closure, argCount: number) {
    if (argCount !== closure.func.arity) {
      this.runtimeError(`Expected ${closure.func.arity} arguments but got ${argCount}.`);
      return false;
    }
    if (this.frames.length === 64) {
      this.runtimeError("Stack overflow.");
      return false;
    }
    this.frames.push({ closure, ip: 0, offset: this.stack.length - argCount - 1 });
    return true;
  }
  \<close>
  The callers cast what they pass to \<^verbatim>\<open>Closure\<close>; on anything else \<^verbatim>\<open>closure.func.arity\<close> is a
  \<^verbatim>\<open>TypeError\<close>.
\<close>

definition call :: "VM \<Rightarrow> Value \<Rightarrow> int \<Rightarrow> (bool \<times> VM) result" where
  "call vm callee argCount =
     (case callee of
        ObjClosure c \<Rightarrow>
          let fn = func (closureObjs vm c) in
          if argCount \<noteq> arity fn then
            Returns (False, runtimeError vm
              (''Expected '' @ showInt (arity fn) @ '' arguments but got '' @ showInt argCount @ ''.''))
          else if length (frames vm) = 64 then
            Returns (False, runtimeError vm ''Stack overflow.'')
          else
            Returns (True, vm\<lparr>frames := frames vm @ [nextRef vm],
              frameObjs := (frameObjs vm)(nextRef vm :=
                \<lparr>closure = c, ip = 0, offset = int (length (stack vm)) - argCount - 1\<rparr>),
              nextRef := nextRef vm + 1\<rparr>)
      | _ \<Rightarrow> Throws ''TypeError'')"

text \<open>
  \<^verbatim>\<open>callValue(callee, argCount)\<close>. The case of a native:
  \<^verbatim>\<open>
  case Native: {
    const native = callee as Native;
    const result = native.nativeFn(argCount, this.stack.slice(this.stack.length - argCount));
    this.stack.length -= argCount;
    this.stack.push(result);
    return true;
  }
  \<close>
  \<^verbatim>\<open>this.stack.length -= argCount\<close> throws a \<^verbatim>\<open>RangeError\<close> when the new length is negative.
\<close>

definition callValue :: "Host \<Rightarrow> VM \<Rightarrow> Value \<Rightarrow> int \<Rightarrow> (bool \<times> VM) result" where
  "callValue host vm callee argCount =
     (case callee of
        ObjBoundMethod r receiver method \<Rightarrow> call (put vm argCount receiver) method argCount
      | ObjClass c \<Rightarrow>
          let vm1 = put (vm\<lparr>instanceObjs := (instanceObjs vm)(nextRef vm :=
                            \<lparr>klass = c, ifields = newTable\<rparr>),
                          nextRef := nextRef vm + 1\<rparr>)
                      argCount (ObjInstance (nextRef vm))
          in rbind (Table_get (methods (classObjs vm1 c)) (initString vm1))
               (\<lambda>initializer.
                  if truthy initializer then call vm1 initializer argCount
                  else if argCount \<noteq> 0 then
                    Returns (False, runtimeError vm1
                      (''Expected 0 arguments but got '' @ showInt argCount @ ''.''))
                  else Returns (True, vm1))
      | ObjClosure c \<Rightarrow> call vm callee argCount
      | ObjNative n \<Rightarrow>
          let len = int (length (stack vm));
              result = nativeFn host n (hostCalls vm) argCount (drop (nat (len - argCount)) (stack vm))
          in if len - argCount < 0 then Throws ''RangeError: Invalid array length''
             else Returns (True, vm\<lparr>stack := take (nat (len - argCount)) (stack vm) @ [result],
                                   hostCalls := hostCalls vm + 1\<rparr>)
      | _ \<Rightarrow> Returns (False, runtimeError vm ''Can only call functions and classes.''))"

definition invokeFromClass :: "VM \<Rightarrow> Value \<Rightarrow> LoxString \<Rightarrow> int \<Rightarrow> (bool \<times> VM) result" where
  "invokeFromClass vm klassV nm argCount =
     (case klassV of
        ObjClass c \<Rightarrow>
          rbind (Table_get (methods (classObjs vm c)) nm)
            (\<lambda>method.
               if \<not> truthy method then
                 Returns (False, runtimeError vm (''Undefined property '' @ [CHR 0x27] @ chars nm @ [CHR 0x27] @ ''.''))
               else call vm method argCount)
      | _ \<Rightarrow> Throws ''TypeError'')"

definition invoke :: "Host \<Rightarrow> VM \<Rightarrow> LoxString \<Rightarrow> int \<Rightarrow> (bool \<times> VM) result" where
  "invoke host vm nm argCount =
     (case peek vm argCount of
        ObjInstance i \<Rightarrow>
          rbind (Table_get (ifields (instanceObjs vm i)) nm)
            (\<lambda>v. if truthy v then callValue host (put vm argCount v) v argCount
                  else invokeFromClass vm (ObjClass (klass (instanceObjs vm i))) nm argCount)
      | _ \<Rightarrow> Returns (False, runtimeError vm ''Only instances have methods.''))"

definition bindMethod :: "VM \<Rightarrow> Value \<Rightarrow> LoxString \<Rightarrow> (bool \<times> VM) result" where
  "bindMethod vm klassV nm =
     (case klassV of
        ObjClass c \<Rightarrow>
          rbind (Table_get (methods (classObjs vm c)) nm)
            (\<lambda>method.
               if \<not> truthy method then
                 Returns (False, runtimeError vm (''Undefined property '' @ [CHR 0x27] @ chars nm @ [CHR 0x27] @ ''.''))
               else (case pop vm of (receiver, vm1) \<Rightarrow>
                 Returns (True, push (vm1\<lparr>nextRef := nextRef vm1 + 1\<rparr>)
                                 (ObjBoundMethod (nextRef vm1) receiver method))))
      | _ \<Rightarrow> Throws ''TypeError'')"

subsection \<open>Upvalues\<close>

text \<open>
  \<^verbatim>\<open>
  captureUpvalue(index: number): Upvalue {
    let prevUpvalue: Upvalue | null = null;
    let upvalue = this.openUpvalues;
    while (upvalue !== null && upvalue.index > index) {
      prevUpvalue = upvalue;
      upvalue = upvalue.next;
    }
    if (upvalue !== null && upvalue.index === index) return upvalue;
    const createdUpvalue = new Upvalue(index);
    createdUpvalue.next = upvalue;
    if (prevUpvalue === null) this.openUpvalues = createdUpvalue;
    else prevUpvalue.next = createdUpvalue;
    return createdUpvalue;
  }
  \<close>
  The loop follows \<^verbatim>\<open>next\<close> references through the store and may not return.
\<close>

partial_function (option) captureUpvalue_walk ::
  "(nat \<Rightarrow> Upvalue) \<Rightarrow> int \<Rightarrow> nat option \<Rightarrow> nat option \<Rightarrow> (nat option \<times> nat option) option" where
  "captureUpvalue_walk us i prevUpvalue upvalue =
     (case upvalue of
        None \<Rightarrow> Some (prevUpvalue, upvalue)
      | Some u \<Rightarrow>
          if index (us u) > i then captureUpvalue_walk us i (Some u) (nxt (us u))
          else Some (prevUpvalue, upvalue))"

definition createUpvalue :: "VM \<Rightarrow> int \<Rightarrow> nat option \<Rightarrow> nat option \<Rightarrow> nat \<times> VM" where
  "createUpvalue vm i prevUpvalue upvalue =
     (let r = nextRef vm;
          us = (upvalueObjs vm)(r := \<lparr>index = i, nxt = upvalue, closed = Nil\<rparr>)
      in case prevUpvalue of
           None \<Rightarrow> (r, vm\<lparr>upvalueObjs := us, openUpvalues := Some r, nextRef := r + 1\<rparr>)
         | Some p \<Rightarrow> (r, vm\<lparr>upvalueObjs := us(p := (us p)\<lparr>nxt := Some r\<rparr>), nextRef := r + 1\<rparr>))"

definition captureUpvalue :: "VM \<Rightarrow> int \<Rightarrow> (nat \<times> VM) result" where
  "captureUpvalue vm i =
     (case captureUpvalue_walk (upvalueObjs vm) i None (openUpvalues vm) of
        None \<Rightarrow> Diverges
      | Some (prevUpvalue, upvalue) \<Rightarrow>
          (case upvalue of
             Some u \<Rightarrow>
               if index (upvalueObjs vm u) = i then Returns (u, vm)
               else Returns (createUpvalue vm i prevUpvalue upvalue)
           | None \<Rightarrow> Returns (createUpvalue vm i prevUpvalue upvalue)))"

text \<open>
  \<^verbatim>\<open>
  closeUpvalues(last: number) {
    while (this.openUpvalues !== null && this.openUpvalues.index >= last) {
      const upvalue: Upvalue = this.openUpvalues;
      upvalue.closed = this.stack[upvalue.index];
      upvalue.index = -1;
      this.openUpvalues = upvalue.next;
    }
  }
  \<close>
  The first argument of the loop reads \<^verbatim>\<open>this.stack\<close> at an index.
\<close>

partial_function (option) closeUpvalues_loop ::
  "(int \<Rightarrow> Value) \<Rightarrow> int \<Rightarrow> (nat \<Rightarrow> Upvalue) \<Rightarrow> nat option \<Rightarrow> ((nat \<Rightarrow> Upvalue) \<times> nat option) option" where
  "closeUpvalues_loop stk lastIdx us opn =
     (case opn of
        None \<Rightarrow> Some (us, opn)
      | Some u \<Rightarrow>
          if index (us u) \<ge> lastIdx
          then closeUpvalues_loop stk lastIdx
                 (us(u := (us u)\<lparr>closed := stk (index (us u)), index := - 1\<rparr>))
                 (nxt (us u))
          else Some (us, opn))"

definition closeUpvalues :: "VM \<Rightarrow> int \<Rightarrow> VM result" where
  "closeUpvalues vm lastIdx =
     (case closeUpvalues_loop (stackGet vm) lastIdx (upvalueObjs vm) (openUpvalues vm) of
        None \<Rightarrow> Diverges
      | Some (us, opn) \<Rightarrow> Returns (vm\<lparr>upvalueObjs := us, openUpvalues := opn\<rparr>))"

subsection \<open>\<^verbatim>\<open>defineMethod\<close>, \<^verbatim>\<open>concatenate\<close>, \<^verbatim>\<open>binaryOp\<close>\<close>

definition defineMethod :: "VM \<Rightarrow> LoxString \<Rightarrow> VM result" where
  "defineMethod vm nm =
     (case peek vm 1 of
        ObjClass c \<Rightarrow>
          rbind (Table_set (methods (classObjs vm c)) nm (peek vm 0))
            (\<lambda>(isNew, t).
               Returns (snd (pop (vm\<lparr>classObjs := (classObjs vm)(c := (classObjs vm c)\<lparr>methods := t\<rparr>)\<rparr>))))
      | _ \<Rightarrow> Throws ''TypeError'')"

text \<open>\<^verbatim>\<open>concatenate\<close> is called when both operands are strings (\<^verbatim>\<open>instanceof LoxString\<close>).\<close>

definition concatenate :: "VM \<Rightarrow> VM result" where
  "concatenate vm =
     (case pop vm of (b, vm1) \<Rightarrow> case pop vm1 of (a, vm2) \<Rightarrow>
        (case (a, b) of
           (ObjString sa, ObjString sb) \<Rightarrow>
             rbind (intern (pool vm2) (nextRef vm2) (chars sa @ chars sb))
               (\<lambda>(s, p). Returns (push (vm2\<lparr>pool := p, nextRef := nextRef vm2 + 1\<rparr>) (ObjString s)))
         | _ \<Rightarrow> Unmodelled))"

text \<open>
  \<^verbatim>\<open>
  binaryOp(op: (a: number, b: number) => Value) {
    const b = this.stack.pop();
    const a = this.stack.pop();
    if (typeof b !== "number" || typeof a !== "number") {
      this.runtimeError("Operands must be numbers.");
      return InterpretResult.RUNTIME_ERROR;
    }
    this.stack.push(op(a, b));
  }
  \<close>
  The result is \<^verbatim>\<open>RUNTIME_ERROR\<close> or nothing (\<open>None\<close>).
\<close>

definition binaryOp :: "VM \<Rightarrow> (double \<Rightarrow> double \<Rightarrow> Value) \<Rightarrow> InterpretResult option \<times> VM" where
  "binaryOp vm op =
     (case pop vm of (b, vm1) \<Rightarrow> case pop vm1 of (a, vm2) \<Rightarrow>
        (case (a, b) of
           (Number x, Number y) \<Rightarrow> (None, push vm2 (op x y))
         | _ \<Rightarrow> (Some RUNTIME_ERROR, runtimeError vm2 ''Operands must be numbers.'')))"

subsection \<open>The dispatch loop (\<^verbatim>\<open>run\<close>)\<close>

text \<open>The opcodes in the order of \<^verbatim>\<open>enum OpCode\<close>, which numbers them from 0.\<close>

datatype OpCode =
    OP_CONSTANT | OP_NIL | OP_TRUE | OP_FALSE | OP_POP | OP_GET_LOCAL | OP_GET_GLOBAL
  | OP_DEFINE_GLOBAL | OP_SET_LOCAL | OP_SET_GLOBAL | OP_GET_UPVALUE | OP_SET_UPVALUE
  | OP_GET_PROPERTY | OP_SET_PROPERTY | OP_GET_SUPER | OP_EQUAL | OP_GREATER | OP_LESS
  | OP_ADD | OP_SUBTRACT | OP_MULTIPLY | OP_DIVIDE | OP_NOT | OP_NEGATE | OP_PRINT | OP_JUMP
  | OP_JUMP_IF_FALSE | OP_LOOP | OP_CALL | OP_INVOKE | OP_SUPER_INVOKE | OP_CLOSURE
  | OP_CLOSE_UPVALUE | OP_RETURN | OP_CLASS | OP_INHERIT | OP_METHOD

definition opcodes :: "OpCode list" where
  "opcodes =
     [OP_CONSTANT, OP_NIL, OP_TRUE, OP_FALSE, OP_POP, OP_GET_LOCAL, OP_GET_GLOBAL,
      OP_DEFINE_GLOBAL, OP_SET_LOCAL, OP_SET_GLOBAL, OP_GET_UPVALUE, OP_SET_UPVALUE,
      OP_GET_PROPERTY, OP_SET_PROPERTY, OP_GET_SUPER, OP_EQUAL, OP_GREATER, OP_LESS,
      OP_ADD, OP_SUBTRACT, OP_MULTIPLY, OP_DIVIDE, OP_NOT, OP_NEGATE, OP_PRINT, OP_JUMP,
      OP_JUMP_IF_FALSE, OP_LOOP, OP_CALL, OP_INVOKE, OP_SUPER_INVOKE, OP_CLOSURE,
      OP_CLOSE_UPVALUE, OP_RETURN, OP_CLASS, OP_INHERIT, OP_METHOD]"

definition decode :: "nat \<Rightarrow> OpCode option" where
  "decode b = (if b < length opcodes then Some (opcodes ! b) else None)"

text \<open>
  One turn of \<^verbatim>\<open>for (;;) switch (readByte())\<close> either goes on, with the VM and the local
  variable \<^verbatim>\<open>frame\<close> (the reference of a frame object, \<open>None\<close> for \<^verbatim>\<open>undefined\<close>), or returns
  from \<^verbatim>\<open>run\<close>.
\<close>

datatype step = Continue VM "nat option" | Halt InterpretResult VM

text \<open>
  \<^verbatim>\<open>readByte\<close>, \<^verbatim>\<open>readShort\<close>, \<^verbatim>\<open>readConstant\<close> and \<^verbatim>\<open>readString\<close> of \<^verbatim>\<open>run\<close>, for the frame \<open>f\<close>.
  \<^verbatim>\<open>readByte\<close> yields \<^verbatim>\<open>undefined\<close> past the end of the code, and increments \<^verbatim>\<open>ip\<close> all the
  same. An operand takes the rest of the instruction as its continuation.
\<close>

definition currentFunction :: "VM \<Rightarrow> nat \<Rightarrow> LoxFunction" where
  "currentFunction vm f = func (closureObjs vm (closure (frameObjs vm f)))"

definition addIp :: "VM \<Rightarrow> nat \<Rightarrow> int \<Rightarrow> VM" where
  "addIp vm f d = vm\<lparr>frameObjs := (frameObjs vm)(f := (frameObjs vm f)\<lparr>ip := ip (frameObjs vm f) + d\<rparr>)\<rparr>"

definition readByte :: "VM \<Rightarrow> nat \<Rightarrow> nat option \<times> VM" where
  "readByte vm f = (nthOpt (code (currentFunction vm f)) (ip (frameObjs vm f)), addIp vm f 1)"

definition operand :: "VM \<Rightarrow> nat \<Rightarrow> (int \<Rightarrow> VM \<Rightarrow> 'a result) \<Rightarrow> 'a result" where
  "operand vm f k = (case readByte vm f of (None, vm1) \<Rightarrow> Unmodelled | (Some b, vm1) \<Rightarrow> k (int b) vm1)"

definition js_shl :: "int \<Rightarrow> nat \<Rightarrow> int" where
  "js_shl a n = sint (push_bit n (word_of_int a :: 32 word))"

definition readShort :: "VM \<Rightarrow> nat \<Rightarrow> (int \<Rightarrow> VM \<Rightarrow> 'a result) \<Rightarrow> 'a result" where
  "readShort vm f k =
     operand vm f (\<lambda>b1 vm1. operand vm1 f (\<lambda>b2 vm2. k (js_or (js_shl b1 8) b2) vm2))"

definition readConstant :: "VM \<Rightarrow> nat \<Rightarrow> (Value \<Rightarrow> VM \<Rightarrow> 'a result) \<Rightarrow> 'a result" where
  "readConstant vm f k =
     operand vm f (\<lambda>b vm1.
       k (case nthOpt (constants (currentFunction vm1 f)) b of None \<Rightarrow> Undefined | Some v \<Rightarrow> v) vm1)"

definition readString :: "VM \<Rightarrow> nat \<Rightarrow> (LoxString \<Rightarrow> VM \<Rightarrow> 'a result) \<Rightarrow> 'a result" where
  "readString vm f k =
     readConstant vm f (\<lambda>v vm1. case v of ObjString s \<Rightarrow> k s vm1 | _ \<Rightarrow> Unmodelled)"

definition isFalsey :: "Value \<Rightarrow> bool" where
  "isFalsey v = (v = Nil \<or> v = Bool False)"

definition topFrame :: "VM \<Rightarrow> nat option" where
  "topFrame vm = (if frames vm = [] then None else Some (last (frames vm)))"

definition afterCall :: "(bool \<times> VM) \<Rightarrow> step result" where
  "afterCall r = (case r of (ok, vm) \<Rightarrow>
     if \<not> ok then Returns (Halt RUNTIME_ERROR vm) else Returns (Continue vm (topFrame vm)))"

definition afterBind :: "nat \<Rightarrow> (bool \<times> VM) \<Rightarrow> step result" where
  "afterBind f r = (case r of (ok, vm) \<Rightarrow>
     if \<not> ok then Returns (Halt RUNTIME_ERROR vm) else Returns (Continue vm (Some f)))"

definition quoted :: "string \<Rightarrow> string" where
  "quoted s = [CHR 0x27] @ s @ [CHR 0x27]"

text \<open>
  The loop of \<^verbatim>\<open>CLOSURE\<close> over the upvalues of the new closure \<open>c\<close>; \<open>n\<close> counts the turns that
  remain.
\<close>

definition appendUpvalue :: "VM \<Rightarrow> nat \<Rightarrow> nat option \<Rightarrow> VM" where
  "appendUpvalue vm c u =
     vm\<lparr>closureObjs := (closureObjs vm)(c := (closureObjs vm c)\<lparr>upvalues := upvalues (closureObjs vm c) @ [u]\<rparr>)\<rparr>"

fun closure_loop :: "nat \<Rightarrow> VM \<Rightarrow> nat \<Rightarrow> nat \<Rightarrow> step result" where
  "closure_loop 0 vm f c = Returns (Continue vm (Some f))"
| "closure_loop (Suc n) vm f c =
     (case readByte vm f of
        (None, vm1) \<Rightarrow> Unmodelled
      | (Some isLocal, vm1) \<Rightarrow>
          (case readByte vm1 f of
             (None, vm2) \<Rightarrow> Unmodelled
           | (Some i, vm2) \<Rightarrow>
               if isLocal \<noteq> 0 then
                 (case captureUpvalue vm2 (offset (frameObjs vm2 f) + int i) of
                    Returns (u, vm3) \<Rightarrow> closure_loop n (appendUpvalue vm3 c (Some u)) f c
                  | Throws e \<Rightarrow> Throws e
                  | Diverges \<Rightarrow> Diverges
                  | Unmodelled \<Rightarrow> Unmodelled)
               else
                 closure_loop n
                   (appendUpvalue vm2 c
                      (case nthOpt (upvalues (closureObjs vm2 (closure (frameObjs vm2 f)))) (int i) of
                         None \<Rightarrow> None | Some u \<Rightarrow> u))
                   f c))"

text \<open>
  The cases of the \<^verbatim>\<open>switch\<close>. \<^verbatim>\<open>GREATER\<close>, \<^verbatim>\<open>LESS\<close>, \<^verbatim>\<open>SUBTRACT\<close>, \<^verbatim>\<open>MULTIPLY\<close> and \<^verbatim>\<open>DIVIDE\<close> are
  \<^verbatim>\<open>this.binaryOp(...); break;\<close>: what \<^verbatim>\<open>binaryOp\<close> returns is dropped.
\<close>

fun exec :: "Host \<Rightarrow> OpCode \<Rightarrow> VM \<Rightarrow> nat \<Rightarrow> step result" where
  "exec host OP_CONSTANT vm f =
     readConstant vm f (\<lambda>v vm1. Returns (Continue (push vm1 v) (Some f)))"
| "exec host OP_NIL vm f = Returns (Continue (push vm Nil) (Some f))"
| "exec host OP_TRUE vm f = Returns (Continue (push vm (Bool True)) (Some f))"
| "exec host OP_FALSE vm f = Returns (Continue (push vm (Bool False)) (Some f))"
| "exec host OP_POP vm f = Returns (Continue (snd (pop vm)) (Some f))"
| "exec host OP_GET_LOCAL vm f =
     operand vm f (\<lambda>slot vm1.
       Returns (Continue (push vm1 (stackGet vm1 (offset (frameObjs vm1 f) + slot))) (Some f)))"
| "exec host OP_GET_GLOBAL vm f =
     readString vm f (\<lambda>nm vm1.
       rbind (Table_get (globals vm1) nm) (\<lambda>v.
         if v = Undefined then
           Returns (Halt RUNTIME_ERROR
             (runtimeError vm1 (''Undefined global '' @ quoted (chars nm) @ ''.'')))
         else Returns (Continue (push vm1 v) (Some f))))"
| "exec host OP_DEFINE_GLOBAL vm f =
     readString vm f (\<lambda>nm vm1.
       case pop vm1 of (v, vm2) \<Rightarrow>
         rbind (Table_set (globals vm2) nm v) (\<lambda>(isNew, t).
           Returns (Continue (vm2\<lparr>globals := t\<rparr>) (Some f))))"
| "exec host OP_SET_LOCAL vm f =
     operand vm f (\<lambda>slot vm1.
       Returns (Continue (stackSet vm1 (offset (frameObjs vm1 f) + slot) (peek vm1 0)) (Some f)))"
| "exec host OP_SET_GLOBAL vm f =
     readString vm f (\<lambda>nm vm1.
       rbind (Table_set (globals vm1) nm (peek vm1 0)) (\<lambda>(isNew, t).
         if isNew then
           rbind (Table_delete t nm) (\<lambda>(deleted, t1).
             Returns (Halt RUNTIME_ERROR
               (runtimeError (vm1\<lparr>globals := t1\<rparr>)
                  (''Undefined global '' @ quoted (chars nm) @ ''.''))))
         else Returns (Continue (vm1\<lparr>globals := t\<rparr>) (Some f))))"
| "exec host OP_GET_UPVALUE vm f =
     operand vm f (\<lambda>slot vm1.
       case nthOpt (upvalues (closureObjs vm1 (closure (frameObjs vm1 f)))) slot of
         Some (Some u) \<Rightarrow>
           Returns (Continue
             (push vm1 (if index (upvalueObjs vm1 u) < 0 then closed (upvalueObjs vm1 u)
                        else stackGet vm1 (index (upvalueObjs vm1 u))))
             (Some f))
       | _ \<Rightarrow> Throws ''TypeError'')"
| "exec host OP_SET_UPVALUE vm f =
     operand vm f (\<lambda>slot vm1.
       case nthOpt (upvalues (closureObjs vm1 (closure (frameObjs vm1 f)))) slot of
         Some (Some u) \<Rightarrow>
           Returns (Continue
             (if index (upvalueObjs vm1 u) < 0
              then vm1\<lparr>upvalueObjs := (upvalueObjs vm1)(u := (upvalueObjs vm1 u)\<lparr>closed := peek vm1 0\<rparr>)\<rparr>
              else stackSet vm1 (index (upvalueObjs vm1 u)) (peek vm1 0))
             (Some f))
       | _ \<Rightarrow> Throws ''TypeError'')"
| "exec host OP_GET_PROPERTY vm f =
     (case peek vm 0 of
        ObjInstance i \<Rightarrow>
          readString vm f (\<lambda>nm vm1.
            rbind (Table_get (ifields (instanceObjs vm1 i)) nm) (\<lambda>v.
              if truthy v then Returns (Continue (push (snd (pop vm1)) v) (Some f))
              else rbind (bindMethod vm1 (ObjClass (klass (instanceObjs vm1 i))) nm) (afterBind f)))
      | _ \<Rightarrow> Returns (Halt RUNTIME_ERROR (runtimeError vm ''Only instances have properties.'')))"
| "exec host OP_SET_PROPERTY vm f =
     (case peek vm 1 of
        ObjInstance i \<Rightarrow>
          readString vm f (\<lambda>nm vm1.
            rbind (Table_set (ifields (instanceObjs vm1 i)) nm (peek vm1 0)) (\<lambda>(isNew, t).
              case pop (vm1\<lparr>instanceObjs :=
                          (instanceObjs vm1)(i := (instanceObjs vm1 i)\<lparr>ifields := t\<rparr>)\<rparr>) of
                (v, vm2) \<Rightarrow> Returns (Continue (push (snd (pop vm2)) v) (Some f))))
      | _ \<Rightarrow> Returns (Halt RUNTIME_ERROR (runtimeError vm ''Only instances have fields.'')))"
| "exec host OP_GET_SUPER vm f =
     readString vm f (\<lambda>nm vm1.
       case pop vm1 of (superclass, vm2) \<Rightarrow> rbind (bindMethod vm2 superclass nm) (afterBind f))"
| "exec host OP_EQUAL vm f =
     (case pop vm of (b, vm1) \<Rightarrow> case pop vm1 of (a, vm2) \<Rightarrow>
        Returns (Continue (push vm2 (Bool (strictEquals a b))) (Some f)))"
| "exec host OP_GREATER vm f =
     Returns (Continue (snd (binaryOp vm (\<lambda>a b. Bool (num_greater host a b)))) (Some f))"
| "exec host OP_LESS vm f =
     Returns (Continue (snd (binaryOp vm (\<lambda>a b. Bool (num_less host a b)))) (Some f))"
| "exec host OP_ADD vm f =
     (case (peek vm 1, peek vm 0) of
        (ObjString sa, ObjString sb) \<Rightarrow>
          rbind (concatenate vm) (\<lambda>vm1. Returns (Continue vm1 (Some f)))
      | (Number x, Number y) \<Rightarrow>
          Returns (Continue (push (snd (pop (snd (pop vm)))) (Number (num_add host x y))) (Some f))
      | (a, b) \<Rightarrow>
          Returns (Halt RUNTIME_ERROR
            (runtimeError vm (''Operands must be two numbers or two strings, where ''
               @ valueType a @ '' and '' @ valueType b))))"
| "exec host OP_SUBTRACT vm f =
     Returns (Continue (snd (binaryOp vm (\<lambda>a b. Number (num_sub host a b)))) (Some f))"
| "exec host OP_MULTIPLY vm f =
     Returns (Continue (snd (binaryOp vm (\<lambda>a b. Number (num_mul host a b)))) (Some f))"
| "exec host OP_DIVIDE vm f =
     Returns (Continue (snd (binaryOp vm (\<lambda>a b. Number (num_div host a b)))) (Some f))"
| "exec host OP_NOT vm f =
     (case pop vm of (v, vm1) \<Rightarrow> Returns (Continue (push vm1 (Bool (isFalsey v))) (Some f)))"
| "exec host OP_NEGATE vm f =
     (case peek vm 0 of
        Number x \<Rightarrow> Returns (Continue (push (snd (pop vm)) (Number (negate x))) (Some f))
      | _ \<Rightarrow> Returns (Halt RUNTIME_ERROR (runtimeError vm ''Operand must be a number.'')))"
| "exec host OP_PRINT vm f =
     (case pop vm of (v, vm1) \<Rightarrow>
        rbind (printValue host vm1 v) (\<lambda>l.
          Returns (Continue (vm1\<lparr>console := console vm1 @ [l]\<rparr>) (Some f))))"
| "exec host OP_JUMP vm f =
     readShort vm f (\<lambda>d vm1. Returns (Continue (addIp vm1 f d) (Some f)))"
| "exec host OP_JUMP_IF_FALSE vm f =
     readShort vm f (\<lambda>d vm1.
       Returns (Continue (if isFalsey (peek vm1 0) then addIp vm1 f d else vm1) (Some f)))"
| "exec host OP_LOOP vm f =
     readShort vm f (\<lambda>d vm1. Returns (Continue (addIp vm1 f (- d)) (Some f)))"
| "exec host OP_CALL vm f =
     operand vm f (\<lambda>argCount vm1.
       rbind (callValue host vm1 (peek vm1 argCount) argCount) afterCall)"
| "exec host OP_INVOKE vm f =
     readString vm f (\<lambda>method vm1.
       operand vm1 f (\<lambda>argCount vm2. rbind (invoke host vm2 method argCount) afterCall))"
| "exec host OP_SUPER_INVOKE vm f =
     readString vm f (\<lambda>method vm1.
       operand vm1 f (\<lambda>argCount vm2.
         case pop vm2 of (superclass, vm3) \<Rightarrow>
           rbind (invokeFromClass vm3 superclass method argCount) afterCall))"
| "exec host OP_CLOSURE vm f =
     readConstant vm f (\<lambda>v vm1.
       case v of
         ObjFunction fn \<Rightarrow>
           closure_loop (nat (upvalueCount fn))
             (push (vm1\<lparr>closureObjs := (closureObjs vm1)(nextRef vm1 := \<lparr>func = fn, upvalues = []\<rparr>),
                        nextRef := nextRef vm1 + 1\<rparr>)
                   (ObjClosure (nextRef vm1)))
             f (nextRef vm1)
       | _ \<Rightarrow> Unmodelled)"
| "exec host OP_CLOSE_UPVALUE vm f =
     rbind (closeUpvalues vm (int (length (stack vm)) - 1)) (\<lambda>vm1.
       Returns (Continue (snd (pop vm1)) (Some f)))"
| "exec host OP_RETURN vm f =
     (case pop vm of (res, vm1) \<Rightarrow>
        rbind (closeUpvalues vm1 (offset (frameObjs vm1 f))) (\<lambda>vm2.
          if frames vm2 = [] then Throws ''RangeError: Invalid array length''
          else if butlast (frames vm2) = [] then
            Returns (Halt OK (snd (pop (vm2\<lparr>frames := []\<rparr>))))
          else if offset (frameObjs vm2 f) < 0 then Throws ''RangeError: Invalid array length''
          else
            Returns (Continue
              (push (vm2\<lparr>frames := butlast (frames vm2),
                         stack := take (nat (offset (frameObjs vm2 f))) (stack vm2)
                           @ replicate (nat (offset (frameObjs vm2 f)) - length (stack vm2)) Undefined\<rparr>)
                    res)
              (Some (last (butlast (frames vm2)))))))"
| "exec host OP_CLASS vm f =
     readString vm f (\<lambda>nm vm1.
       Returns (Continue
         (push (vm1\<lparr>classObjs := (classObjs vm1)(nextRef vm1 := \<lparr>className = nm, methods = newTable\<rparr>),
                    nextRef := nextRef vm1 + 1\<rparr>)
               (ObjClass (nextRef vm1)))
         (Some f)))"
| "exec host OP_INHERIT vm f =
     (case peek vm 1 of
        ObjClass super \<Rightarrow>
          (case peek vm 0 of
             ObjClass sub \<Rightarrow>
               rbind (if sub = super then Table_addAll_self (methods (classObjs vm sub))
                      else Table_addAll (methods (classObjs vm sub)) (methods (classObjs vm super)))
                 (\<lambda>t. Returns (Continue
                    (snd (pop (vm\<lparr>classObjs := (classObjs vm)(sub := (classObjs vm sub)\<lparr>methods := t\<rparr>)\<rparr>)))
                    (Some f)))
           | _ \<Rightarrow> Throws ''TypeError'')
      | _ \<Rightarrow> Returns (Halt RUNTIME_ERROR (runtimeError vm ''Superclass must be a class.'')))"
| "exec host OP_METHOD vm f =
     readString vm f (\<lambda>nm vm1. rbind (defineMethod vm1 nm) (\<lambda>vm2. Returns (Continue vm2 (Some f))))"

text \<open>
  A byte that is no opcode, \<^verbatim>\<open>undefined\<close> included, matches no \<^verbatim>\<open>case\<close>: the loop goes on.
  \<^verbatim>\<open>frame.closure\<close> of an undefined \<^verbatim>\<open>frame\<close> is a \<^verbatim>\<open>TypeError\<close>.
\<close>

definition step :: "Host \<Rightarrow> VM \<Rightarrow> nat option \<Rightarrow> step result" where
  "step host vm fr =
     (case fr of
        None \<Rightarrow> Throws ''TypeError''
      | Some f \<Rightarrow>
          (case readByte vm f of
             (None, vm1) \<Rightarrow> Returns (Continue vm1 (Some f))
           | (Some b, vm1) \<Rightarrow>
               (case decode b of
                  None \<Rightarrow> Returns (Continue vm1 (Some f))
                | Some opc \<Rightarrow> exec host opc vm1 f)))"

partial_function (option) run_loop ::
  "Host \<Rightarrow> VM \<Rightarrow> nat option \<Rightarrow> (InterpretResult \<times> VM) result option" where
  "run_loop host vm fr =
     (case step host vm fr of
        Returns (Continue vm1 fr1) \<Rightarrow> run_loop host vm1 fr1
      | Returns (Halt r vm1) \<Rightarrow> Some (Returns (r, vm1))
      | Throws e \<Rightarrow> Some (Throws e)
      | Diverges \<Rightarrow> None
      | Unmodelled \<Rightarrow> Some Unmodelled)"

definition run :: "Host \<Rightarrow> VM \<Rightarrow> (InterpretResult \<times> VM) result option" where
  "run host vm = run_loop host vm (topFrame vm)"

text \<open>
  \<^verbatim>\<open>interpret(source)\<close> after \<^verbatim>\<open>compile(source, this.pool)\<close>, whose result is \<open>compiled\<close>
  (\<open>None\<close> for \<^verbatim>\<open>null\<close>); \<open>interpret\<close> is a command of Isabelle. What \<^verbatim>\<open>this.call(closure, 0)\<close> returns is dropped.
\<close>

definition VM_interpret :: "Host \<Rightarrow> VM \<Rightarrow> LoxFunction option \<Rightarrow> (InterpretResult \<times> VM) result option" where
  "VM_interpret host vm compiled =
     (case compiled of
        None \<Rightarrow> Some (Returns (COMPILE_ERROR, vm))
      | Some fn \<Rightarrow>
          (case call (push (vm\<lparr>closureObjs := (closureObjs vm)(nextRef vm := \<lparr>func = fn, upvalues = []\<rparr>),
                               nextRef := nextRef vm + 1\<rparr>)
                          (ObjClosure (nextRef vm)))
                     (ObjClosure (nextRef vm)) 0 of
             Returns (ok, vm1) \<Rightarrow> run host vm1
           | Throws e \<Rightarrow> Some (Throws e)
           | Diverges \<Rightarrow> None
           | Unmodelled \<Rightarrow> Some Unmodelled))"

text \<open>
  \<^verbatim>\<open>new VM(pool)\<close> on the fresh pool of \<^verbatim>\<open>main.ts\<close>: the constructor defines the native
  \<^verbatim>\<open>clock\<close> and interns \<^verbatim>\<open>"init"\<close>. The stores start with placeholder objects, which no
  reference names yet.
\<close>

definition emptyVM :: "VM" where
  "emptyVM =
     \<lparr>frames = [], stack = [], stackProps = (\<lambda>_. Undefined), globals = newTable, initString = LoxString 0 [] 0,
      openUpvalues = None, pool = newPool,
      frameObjs = (\<lambda>_. \<lparr>closure = 0, ip = 0, offset = 0\<rparr>),
      upvalueObjs = (\<lambda>_. \<lparr>index = - 1, nxt = None, closed = Nil\<rparr>),
      closureObjs = (\<lambda>_. \<lparr>func = LoxFunction 0 0 0 [] [] [] None, upvalues = []\<rparr>),
      classObjs = (\<lambda>_. \<lparr>className = LoxString 0 [] 0, methods = newTable\<rparr>),
      instanceObjs = (\<lambda>_. \<lparr>klass = 0, ifields = newTable\<rparr>),
      nextRef = 0, hostCalls = 0, console = []\<rparr>"

definition newVM :: "VM result" where
  "newVM =
     rbind (intern newPool 0 ''clock'') (\<lambda>(clock, p1).
       rbind (Table_set newTable clock (ObjNative 1)) (\<lambda>(isNew, g).
         rbind (intern p1 2 ''init'') (\<lambda>(ini, p2).
           Returns (emptyVM\<lparr>globals := g, initString := ini, pool := p2, nextRef := 3\<rparr>))))"

section \<open>Invariants of the hash table\<close>

text \<open>
  \<open>probe msk i n\<close> is the slot the probe loops look at after \<open>n\<close> steps from slot \<open>i\<close>. A slot
  is empty when both arrays have a hole there; a slot with a value and no key is a
  tombstone. \<open>Table_reserve\<close> and \<open>Table_store\<close> name the two halves of \<open>Table_set\<close>
  (\<open>Table_set_eq\<close>).
\<close>

definition probe :: "int \<Rightarrow> int \<Rightarrow> nat \<Rightarrow> int" where
  "probe msk i n = ((\<lambda>j. js_and (j + 1) msk) ^^ n) i"

definition slot_empty :: "(int \<Rightarrow> LoxString option) \<Rightarrow> (int \<Rightarrow> Value) \<Rightarrow> int \<Rightarrow> bool" where
  "slot_empty ks vs j = (ks j = None \<and> vs j = Undefined)"

definition slot_match :: "(int \<Rightarrow> LoxString option) \<Rightarrow> LoxString \<Rightarrow> int \<Rightarrow> bool" where
  "slot_match ks key j = (case ks j of None \<Rightarrow> False | Some key2 \<Rightarrow> sref key = sref key2)"

definition slot_passed :: "(int \<Rightarrow> LoxString option) \<Rightarrow> (int \<Rightarrow> Value) \<Rightarrow> LoxString \<Rightarrow> int \<Rightarrow> bool" where
  "slot_passed ks vs key j = (\<not> slot_empty ks vs j \<and> \<not> slot_match ks key j)"

definition used_slots :: "(int \<Rightarrow> LoxString option) \<Rightarrow> (int \<Rightarrow> Value) \<Rightarrow> int set" where
  "used_slots ks vs = {j. \<not> slot_empty ks vs j}"

definition arrays_ok :: "(int \<Rightarrow> LoxString option) \<Rightarrow> (int \<Rightarrow> Value) \<Rightarrow> int \<Rightarrow> int \<Rightarrow> bool" where
  "arrays_ok ks vs cap c \<longleftrightarrow>
     (\<exists>k. 3 \<le> k \<and> k \<le> 31 \<and> cap = 2 ^ k) \<and> used_slots ks vs \<subseteq> {0..<cap}
       \<and> int (card (used_slots ks vs)) \<le> c"

definition table_inv :: "Table \<Rightarrow> bool" where
  "table_inv t \<longleftrightarrow>
     (capacity t = 0 \<and> count t = 0 \<and> slot_empty (keys t) (vals t) 0)
     \<or> (arrays_ok (keys t) (vals t) (capacity t) (count t) \<and> 4 * count t \<le> 3 * capacity t)"

definition live_below :: "Table \<Rightarrow> int \<Rightarrow> int set" where
  "live_below t i = {j. 0 \<le> j \<and> j < i \<and> keys t j \<noteq> None}"

definition Table_reserve :: "Table \<Rightarrow> Table result" where
  "Table_reserve t =
     (if 4 * (count t + 1) > 3 * capacity t
      then Table_grow t (if capacity t < 8 then 8 else capacity t * 2)
      else Returns t)"

definition Table_store :: "Table \<Rightarrow> LoxString \<Rightarrow> Value \<Rightarrow> int \<Rightarrow> bool \<times> Table" where
  "Table_store t1 key v ix =
     (let isNewKey = (keys t1 ix = None);
          t2 = (if isNewKey
                then t1\<lparr>keys := (keys t1)(ix \<mapsto> key),
                        count := (if vals t1 ix = Undefined then count t1 + 1 else count t1)\<rparr>
                else t1)
      in (isNewKey, t2\<lparr>vals := (vals t2)(ix := v)\<rparr>))"

definition table_room :: "Table \<Rightarrow> bool" where
  "table_room t \<longleftrightarrow>
     arrays_ok (keys t) (vals t) (capacity t) (count t) \<and> 4 * (count t + 1) \<le> 3 * capacity t"

inductive reachable_table :: "Table \<Rightarrow> bool" where
  reach_new: "reachable_table newTable"
| reach_set: "reachable_table t \<Longrightarrow> Table_set t key v = Returns (b, t') \<Longrightarrow> reachable_table t'"
| reach_delete: "reachable_table t \<Longrightarrow> Table_delete t key = Returns (b, t') \<Longrightarrow> reachable_table t'"
| reach_addAll: "reachable_table t \<Longrightarrow> Table_addAll t other = Returns t' \<Longrightarrow> reachable_table t'"

definition key_a :: "LoxString" where
  "key_a = LoxString 0 ''a'' (- 468965076)"

definition table_a :: "Table" where
  "table_a = \<lparr>count = 1, capacity = 8, keys = (\<lambda>_. None)(4 \<mapsto> key_a),
     vals = (\<lambda>_. Undefined)(4 := Bool False)\<rparr>"


section \<open>Invariants of the virtual machine\<close>

fun upvalue_list :: "(nat \<Rightarrow> Upvalue) \<Rightarrow> nat option \<Rightarrow> nat list \<Rightarrow> bool" where
  "upvalue_list us p [] = (p = None)"
| "upvalue_list us p (x # xs) = (p = Some x \<and> upvalue_list us (nxt (us x)) xs)"

definition descending :: "(nat \<Rightarrow> Upvalue) \<Rightarrow> nat list \<Rightarrow> bool" where
  "descending us xs = sorted_wrt (\<lambda>a b. a > b) (map (\<lambda>x. index (us x)) xs)"

definition open_sorted :: "VM \<Rightarrow> bool" where
  "open_sorted vm \<longleftrightarrow>
     (\<exists>xs. upvalue_list (upvalueObjs vm) (openUpvalues vm) xs \<and> descending (upvalueObjs vm) xs
        \<and> (\<forall>x\<in>set xs. x < nextRef vm))"

definition vm_inv :: "VM \<Rightarrow> bool" where
  "vm_inv vm \<longleftrightarrow> length (frames vm) \<le> 64 \<and> open_sorted vm"

fun upvalue_path :: "(nat \<Rightarrow> Upvalue) \<Rightarrow> nat option \<Rightarrow> nat list \<Rightarrow> nat option \<Rightarrow> bool" where
  "upvalue_path us p [] q = (p = q)"
| "upvalue_path us p (x # xs) q = (p = Some x \<and> upvalue_path us (nxt (us x)) xs q)"

text \<open>A step that leaves the frames and the upvalues alone and allocates at most.\<close>

definition same_core :: "VM \<Rightarrow> VM \<Rightarrow> bool" where
  "same_core vm vm' \<longleftrightarrow>
     frames vm' = frames vm \<and> openUpvalues vm' = openUpvalues vm
     \<and> upvalueObjs vm' = upvalueObjs vm \<and> nextRef vm \<le> nextRef vm'"

fun stepVM :: "step \<Rightarrow> VM" where
  "stepVM (Continue vm fr) = vm"
| "stepVM (Halt r vm) = vm"

text \<open>
  The states of the machine between two instructions. \<open>Idle\<close>: no \<^verbatim>\<open>interpret\<close> is running
  (after the constructor, after a run). \<open>Running vm fr\<close>: at the head of the loop of \<^verbatim>\<open>run\<close>,
  with the local variable \<^verbatim>\<open>frame\<close>. The compiler runs while the machine is idle: it makes
  strings and functions, which uses up references, and interns into the pool it shares
  with the machine. \<^verbatim>\<open>interpret\<close> runs whatever function the compiler returns; here it is any
  function.
\<close>

datatype config = Idle VM | Running VM "nat option"

fun configVM :: "config \<Rightarrow> VM" where
  "configVM (Idle vm) = vm"
| "configVM (Running vm fr) = vm"

inductive reachable :: "Host \<Rightarrow> config \<Rightarrow> bool" for host where
  reach_newVM: "newVM = Returns vm \<Longrightarrow> reachable host (Idle vm)"
| reach_compile:
    "reachable host (Idle vm) \<Longrightarrow> nextRef vm \<le> n \<Longrightarrow>
     reachable host (Idle (vm\<lparr>pool := p, nextRef := n\<rparr>))"
| reach_interpret:
    "reachable host (Idle vm) \<Longrightarrow>
     call (push (vm\<lparr>closureObjs := (closureObjs vm)(nextRef vm := \<lparr>func = fn, upvalues = []\<rparr>),
                    nextRef := nextRef vm + 1\<rparr>)
               (ObjClosure (nextRef vm)))
          (ObjClosure (nextRef vm)) 0 = Returns (ok, vm1) \<Longrightarrow>
     reachable host (Running vm1 (topFrame vm1))"
| reach_step:
    "reachable host (Running vm fr) \<Longrightarrow> step host vm fr = Returns (Continue vm1 fr1) \<Longrightarrow>
     reachable host (Running vm1 fr1)"
| reach_halt:
    "reachable host (Running vm fr) \<Longrightarrow> step host vm fr = Returns (Halt r vm1) \<Longrightarrow>
     reachable host (Idle vm1)"

text \<open>The machine that \<^verbatim>\<open>new VM(pool)\<close> makes: \<^verbatim>\<open>"clock"\<close> and \<^verbatim>\<open>"init"\<close> both hash to slot 0.\<close>

definition key_clock :: LoxString where
  "key_clock = LoxString 0 ''clock'' 666893752"

definition key_init :: LoxString where
  "key_init = LoxString 2 ''init'' 363975136"

definition vm_new :: VM where
  "vm_new = emptyVM\<lparr>
     globals := \<lparr>count = 1, capacity = 8, keys = (\<lambda>_. None)(0 \<mapsto> key_clock),
                 vals = (\<lambda>_. Undefined)(0 := ObjNative 1)\<rparr>,
     initString := key_init,
     pool := \<lparr>strings = \<lparr>count = 2, capacity = 8,
                keys = (\<lambda>_. None)(0 \<mapsto> key_clock, 1 \<mapsto> key_init),
                vals = (\<lambda>_. Undefined)(0 := Nil, 1 := Nil)\<rparr>\<rparr>,
     nextRef := 3\<rparr>"

text \<open>A machine with 64 frames and a closure of one parameter.\<close>

definition vm_full :: VM where
  "vm_full = emptyVM\<lparr>frames := replicate 64 0,
     closureObjs := (closureObjs emptyVM)(1 := \<lparr>func = LoxFunction 0 1 0 [] [] [] None, upvalues = []\<rparr>),
     nextRef := 2\<rparr>"

text \<open>
  A machine in the frame of the code \<^verbatim>\<open>GET_PROPERTY 0\<close> with the constant \<^verbatim>\<open>"a"\<close>; the top of
  the stack is an instance whose fields are \<open>table_a\<close> (\<^verbatim>\<open>a = false\<close>) and whose class has no
  method.
\<close>

definition vm_field :: VM where
  "vm_field = emptyVM\<lparr>frames := [0], stack := [ObjInstance 1],
     frameObjs := (frameObjs emptyVM)(0 := \<lparr>closure = 0, ip = 0, offset = 0\<rparr>),
     closureObjs := (closureObjs emptyVM)(0 :=
       \<lparr>func = LoxFunction 0 0 0 [12, 0] [1, 1] [ObjString key_a] None, upvalues = []\<rparr>),
     instanceObjs := (instanceObjs emptyVM)(1 := \<lparr>klass = 2, ifields = table_a\<rparr>),
     nextRef := 3\<rparr>"

text \<open>\<open>n\<close> turns of the loop of \<^verbatim>\<open>run\<close>, and the configuration a turn leaves.\<close>

fun run_steps :: "Host \<Rightarrow> nat \<Rightarrow> VM \<Rightarrow> nat option \<Rightarrow> step result" where
  "run_steps host 0 vm fr = Returns (Continue vm fr)"
| "run_steps host (Suc n) vm fr =
     (case step host vm fr of
        Returns (Continue vm1 fr1) \<Rightarrow> run_steps host n vm1 fr1
      | other \<Rightarrow> other)"

fun stepConfig :: "step \<Rightarrow> config" where
  "stepConfig (Continue vm fr) = Running vm fr"
| "stepConfig (Halt r vm) = Idle vm"











text \<open>
  The program \<^verbatim>\<open>fun f() { f(); } f();\<close>: the script is
  \<^verbatim>\<open>CLOSURE f; DEFINE_GLOBAL "f"; GET_GLOBAL "f"; CALL 0; POP; NIL; RETURN\<close>, the function
  \<^verbatim>\<open>GET_GLOBAL "f"; CALL 0; POP; NIL; RETURN\<close>. The compiler makes the references 3 to 5,
  \<^verbatim>\<open>interpret\<close> the closure 6 and the frame 7. \<open>vm_deep\<close> is the machine after 128 turns of the
  loop, before the 64th call of \<open>f\<close>.
\<close>

definition key_f :: LoxString where
  "key_f = LoxString 4 ''f'' (- 485742696)"

definition fn_f :: LoxFunction where
  "fn_f = LoxFunction 5 0 0 [6, 0, 28, 0, 4, 1, 33] (replicate 7 1) [ObjString key_f] (Some key_f)"

definition fn_rec :: LoxFunction where
  "fn_rec = LoxFunction 3 0 0 [31, 1, 7, 0, 6, 2, 28, 0, 4, 1, 33] (replicate 11 1)
     [ObjString key_f, ObjFunction fn_f, ObjString key_f] None"

definition vm_rec :: "Pool \<Rightarrow> VM" where
  "vm_rec p = vm_new\<lparr>
     frames := [7], stack := [ObjClosure 6], pool := p,
     frameObjs := (frameObjs emptyVM)(7 := \<lparr>closure = 6, ip = 0, offset = 0\<rparr>),
     closureObjs := (closureObjs emptyVM)(6 := \<lparr>func = fn_rec, upvalues = []\<rparr>),
     nextRef := 8\<rparr>"

definition vm_deep :: "Host \<Rightarrow> Pool \<Rightarrow> VM" where
  "vm_deep host p =
     (case run_steps host 128 (vm_rec p) (Some 7) of Returns st \<Rightarrow> stepVM st | _ \<Rightarrow> vm_rec p)"

text \<open>
  The program \<^verbatim>\<open>nil - nil; print "x";\<close>: the script is
  \<^verbatim>\<open>NIL; NIL; SUBTRACT; POP; CONSTANT "x"; PRINT; NIL; RETURN\<close>. The compiler makes the
  references 3 and 4, \<^verbatim>\<open>interpret\<close> the closure 5 and the frame 6. \<open>vm_sub_error\<close> is the machine
  after \<^verbatim>\<open>SUBTRACT\<close>, \<open>vm_sub_print\<close> the machine after \<^verbatim>\<open>PRINT\<close>.
\<close>

definition key_x :: LoxString where
  "key_x = LoxString 4 ''x'' (- 49524600)"

definition fn_sub :: LoxFunction where
  "fn_sub = LoxFunction 3 0 0 [1, 1, 19, 4, 0, 0, 24, 1, 33] (replicate 9 1) [ObjString key_x] None"

definition vm_sub :: "Pool \<Rightarrow> VM" where
  "vm_sub p = vm_new\<lparr>
     frames := [6], stack := [ObjClosure 5], pool := p,
     frameObjs := (frameObjs emptyVM)(6 := \<lparr>closure = 5, ip = 0, offset = 0\<rparr>),
     closureObjs := (closureObjs emptyVM)(5 := \<lparr>func = fn_sub, upvalues = []\<rparr>),
     nextRef := 7\<rparr>"

definition vm_sub_error :: "Pool \<Rightarrow> VM" where
  "vm_sub_error p = vm_new\<lparr>
     pool := p,
     frameObjs := (frameObjs emptyVM)(6 := \<lparr>closure = 5, ip = 3, offset = 0\<rparr>),
     closureObjs := (closureObjs emptyVM)(5 := \<lparr>func = fn_sub, upvalues = []\<rparr>),
     nextRef := 7,
     console := [''Operands must be numbers.'', ''[line 1] in script'']\<rparr>"

definition vm_sub_print :: "Pool \<Rightarrow> VM" where
  "vm_sub_print p = vm_new\<lparr>
     pool := p,
     frameObjs := (frameObjs emptyVM)(6 := \<lparr>closure = 5, ip = 7, offset = 0\<rparr>),
     closureObjs := (closureObjs emptyVM)(5 := \<lparr>func = fn_sub, upvalues = []\<rparr>),
     nextRef := 7,
     console := [''Operands must be numbers.'', ''[line 1] in script'', ''x'']\<rparr>"


section \<open>Facts about the number model\<close>

lemma bitLength_le: "n < 2 ^ k \<Longrightarrow> bitLength n \<le> k"
proof (induction k arbitrary: n)
  case 0
  then show ?case by (simp add: bitLength.simps)
next
  case (Suc k)
  show ?case
  proof (cases "n = 0")
    case True
    then show ?thesis by (simp add: bitLength.simps)
  next
    case False
    from Suc.prems have "n div 2 < 2 ^ k" by simp
    then have "bitLength (n div 2) \<le> k" by (rule Suc.IH)
    with False show ?thesis by (subst bitLength.simps) simp
  qed
qed

lemma roundAt_0: "roundAt 0 m = m"
  by (simp add: roundAt_def)

text \<open>Integers below \<open>2 ^ 53\<close> in magnitude are doubles: rounding leaves them alone.\<close>

lemma roundDouble_exact: "\<bar>x\<bar> < 2 ^ 53 \<Longrightarrow> roundDouble x = x"
proof -
  assume a: "\<bar>x\<bar> < 2 ^ 53"
  then have "nat \<bar>x\<bar> < 2 ^ 53" by (simp add: nat_less_iff)
  then have "bitLength (nat \<bar>x\<bar>) \<le> 53" by (rule bitLength_le)
  then have "bitLength (nat \<bar>x\<bar>) - 53 = 0" by simp
  then have "roundDouble x = sgn x * int (nat \<bar>x\<bar>)"
    by (simp add: roundDouble_def roundAt_0)
  also have "\<dots> = x" by (simp add: sgn_if)
  finally show ?thesis .
qed

lemma bitLength_product_b: "bitLength 35716716523934235 = 55"
  by (simp add: bitLength.simps)

lemma roundDouble_product_b: "roundDouble (- 35716716523934235) = - 35716716523934236"
  by (simp add: roundDouble_def roundAt_def bitLength_product_b)

text \<open>With a mask \<open>2 ^ n - 1\<close> below \<open>2 ^ 31\<close>, \<^verbatim>\<open>x & mask\<close> is \<open>x mod 2 ^ n\<close>, also for negative \<open>x\<close>.\<close>

lemma js_and_mask:
  assumes "n \<le> 31"
  shows "js_and x (2 ^ n - 1) = x mod 2 ^ n"
proof -
  let ?w = "(word_of_int x :: 32 word) AND word_of_int (2 ^ n - 1)"
  have m: "(word_of_int (2 ^ n - 1) :: 32 word) = mask n"
    by (simp add: mask_eq_exp_minus_1)
  have "uint ?w = take_bit n (uint (word_of_int x :: 32 word))"
    unfolding m by (simp add: take_bit_eq_mask [symmetric] unsigned_take_bit_eq)
  also have "\<dots> = take_bit n (take_bit 32 x)"
    by (simp add: uint_word_of_int_eq)
  also have "\<dots> = take_bit n x"
    using assms by (simp add: min_def)
  also have "\<dots> = x mod 2 ^ n"
    by (simp add: take_bit_eq_mod)
  finally have u: "uint ?w = x mod 2 ^ n" .
  have a: "(2::int) ^ n \<le> 2 ^ 31"
    using assms by (intro power_increasing) auto
  have b: "x mod 2 ^ n < 2 ^ n" and c: "0 \<le> x mod 2 ^ n" by simp_all
  have "signed_take_bit 31 (x mod 2 ^ n) = x mod 2 ^ n"
  proof (rule signed_take_bit_int_eq_self)
    have "- (2 ^ 31) \<le> (0::int)" by simp
    also note c
    finally show "- (2 ^ 31) \<le> x mod 2 ^ n" .
    from a b show "x mod 2 ^ n < 2 ^ 31" by linarith
  qed
  then have "sint ?w = x mod 2 ^ n"
    by (subst sint_uint, subst u) simp
  then show ?thesis by (simp add: js_and_def)
qed


section \<open>Facts about the scanner\<close>

lemma string_loop_Some:
  assumes "string_loop s = Some t"
  shows "\<exists>i\<ge>current s. charAt (source s) i = Some (CHR 0x22)"
  using assms
proof (induction s t rule: string_loop.raw_induct [rotated 1, consumes 1, case_names step])
  case (step f s t)
  show ?case
  proof (cases "peekChar s 0 = Some (CHR 0x22)")
    case True
    then show ?thesis by (auto simp: peekChar_def)
  next
    case False
    let ?s' = "bump (if peekChar s 0 = Some (CHR 0x0A) then nextLine s else s)"
    from False step(2) have "f ?s' = Some t" by simp
    then have "\<exists>i\<ge>current ?s'. charAt (source ?s') i = Some (CHR 0x22)" by (rule step(1))
    then obtain i where "i \<ge> current ?s'" "charAt (source ?s') i = Some (CHR 0x22)" by blast
    then have "i \<ge> current s \<and> charAt (source s) i = Some (CHR 0x22)"
      by (auto simp: bump_def nextLine_def split: if_splits)
    then show ?thesis by blast
  qed
qed


lemma string_loop_None:
  assumes "\<forall>i\<ge>current s. charAt (source s) i \<noteq> Some (CHR 0x22)"
  shows "string_loop s = None"
proof (cases "string_loop s")
  case None
  then show ?thesis .
next
  case (Some t)
  then have "\<exists>i\<ge>current s. charAt (source s) i = Some (CHR 0x22)" by (rule string_loop_Some)
  with assms show ?thesis by blast
qed

lemma string_loop_terminates:
  assumes "current s \<le> i" and "charAt (source s) i = Some (CHR 0x22)"
  shows "\<exists>t. string_loop s = Some t"
  using assms
proof (induction "i - current s" arbitrary: s)
  case 0
  then have "peekChar s 0 = Some (CHR 0x22)" by (simp add: peekChar_def)
  then have "string_loop s = Some s" by (subst string_loop.simps) simp
  then show ?case by blast
next
  case (Suc n)
  then have ne: "peekChar s 0 \<noteq> Some (CHR 0x22) \<or> peekChar s 0 = Some (CHR 0x22)" by blast
  show ?case
  proof (cases "peekChar s 0 = Some (CHR 0x22)")
    case True
    then have "string_loop s = Some s" by (subst string_loop.simps) simp
    then show ?thesis by blast
  next
    case False
    let ?s' = "bump (if peekChar s 0 = Some (CHR 0x0A) then nextLine s else s)"
    have c: "current ?s' = Suc (current s)" and src: "source ?s' = source s"
      by (simp_all add: bump_def nextLine_def)
    from Suc.hyps(2) c have "n = i - current ?s'" by simp
    moreover from Suc.hyps(2) c have "current ?s' \<le> i" by simp
    moreover from Suc.prems(2) src have "charAt (source ?s') i = Some (CHR 0x22)" by simp
    ultimately have "\<exists>t. string_loop ?s' = Some t" by (rule Suc.hyps(1))
    moreover from False have "string_loop s = string_loop ?s'"
      by (subst string_loop.simps) simp
    ultimately show ?thesis by simp
  qed
qed


section \<open>Facts about the hash table\<close>

lemma probe_0 [simp]: "probe msk i 0 = i"
  by (simp add: probe_def)

lemma probe_Suc: "probe msk i (Suc n) = probe msk (js_and (i + 1) msk) n"
  by (simp only: probe_def funpow_Suc_right o_apply)

lemma probe_Suc': "probe msk i (Suc n) = js_and (probe msk i n + 1) msk"
  by (simp add: probe_def)

lemma probe_mod:
  assumes "k \<le> 31"
  shows "probe (2 ^ k - 1) i n = (i + int n) mod 2 ^ k \<or> n = 0"
proof (induction n)
  case 0
  show ?case by simp
next
  case (Suc n)
  have "probe (2 ^ k - 1) i (Suc n) = (probe (2 ^ k - 1) i n + 1) mod 2 ^ k"
    by (simp add: probe_Suc' js_and_mask [OF assms])
  also have "\<dots> = (i + int (Suc n)) mod 2 ^ k"
  proof (cases "n = 0")
    case True
    then show ?thesis by simp
  next
    case False
    with Suc have "probe (2 ^ k - 1) i n = (i + int n) mod 2 ^ k" by simp
    then have "(probe (2 ^ k - 1) i n + 1) mod 2 ^ k = ((i + int n) mod 2 ^ k + 1) mod 2 ^ k"
      by simp
    also have "\<dots> = (i + int n + 1) mod 2 ^ k" by (rule mod_add_left_eq)
    finally show ?thesis by (simp add: ac_simps)
  qed
  finally show ?case by simp
qed

lemma probe_in_range:
  assumes "k \<le> 31" and "0 \<le> i" and "i < 2 ^ k"
  shows "probe (2 ^ k - 1) i n = (i + int n) mod 2 ^ k"
proof (cases "n = 0")
  case True
  with assms show ?thesis by simp
next
  case False
  with probe_mod [OF assms(1), of i n] show ?thesis by simp
qed

lemma find_loop_terminates:
  assumes "slot_empty ks vs (probe msk i n) \<or> slot_match ks key (probe msk i n)"
  shows "\<exists>r. Table_find_loop ks vs msk key T i = Some r"
  using assms
proof (induction n arbitrary: i T)
  case 0
  then show ?case
    by (subst Table_find_loop.simps)
       (auto simp: slot_empty_def slot_match_def split: option.splits)
next
  case (Suc n)
  then have "slot_empty ks vs (probe msk (js_and (i + 1) msk) n)
      \<or> slot_match ks key (probe msk (js_and (i + 1) msk) n)"
    by (simp add: probe_Suc)
  then have "\<And>T. \<exists>r. Table_find_loop ks vs msk key T (js_and (i + 1) msk) = Some r"
    by (rule Suc.IH)
  then show ?case
    by (subst Table_find_loop.simps) (auto split: option.splits)
qed

lemma find_loop_match:
  assumes "\<forall>m<n. \<not> slot_empty ks vs (probe msk i m) \<and> \<not> slot_match ks key (probe msk i m)"
    and "slot_match ks key (probe msk i n)"
  shows "Table_find_loop ks vs msk key T i = Some (probe msk i n)"
  using assms
proof (induction n arbitrary: i T)
  case 0
  then show ?case
    by (subst Table_find_loop.simps) (auto simp: slot_match_def split: option.splits)
next
  case (Suc n)
  let ?i' = "js_and (i + 1) msk"
  from Suc.prems(1) have here: "\<not> slot_empty ks vs i" "\<not> slot_match ks key i"
    by (metis probe_0 zero_less_Suc)+
  have "\<forall>m<n. \<not> slot_empty ks vs (probe msk ?i' m) \<and> \<not> slot_match ks key (probe msk ?i' m)"
    using Suc.prems(1) by (auto simp: probe_Suc [symmetric])
  moreover from Suc.prems(2) have "slot_match ks key (probe msk ?i' n)"
    by (simp add: probe_Suc)
  ultimately have "\<And>T. Table_find_loop ks vs msk key T ?i' = Some (probe msk ?i' n)"
    by (rule Suc.IH)
  with here show ?case
    by (subst Table_find_loop.simps)
       (auto simp: slot_match_def slot_empty_def probe_Suc split: option.splits)
qed

lemma passed_shift:
  assumes "slot_passed ks vs key i"
    and "\<forall>m<n. slot_passed ks vs key (probe msk (js_and (i + 1) msk) m)"
  shows "\<forall>m<Suc n. slot_passed ks vs key (probe msk i m)"
proof (intro allI impI)
  fix m assume "m < Suc n"
  show "slot_passed ks vs key (probe msk i m)"
  proof (cases m)
    case 0
    with assms(1) show ?thesis by simp
  next
    case (Suc m')
    with \<open>m < Suc n\<close> assms(2) show ?thesis by (simp add: probe_Suc)
  qed
qed

lemma find_loop_result:
  assumes "Table_find_loop ks vs msk key T i = Some r"
  shows "slot_match ks key r \<or> T = Some r
    \<or> (ks r = None \<and> (\<exists>n. r = probe msk i n \<and> (\<forall>m<n. slot_passed ks vs key (probe msk i m))))"
  using assms
proof (induction ks vs msk key T i r
    rule: Table_find_loop.raw_induct [rotated 1, consumes 1, case_names step])
  case (step f ks vs msk key T i r)
  let ?i' = "js_and (i + 1) msk"
  let ?Q = "\<lambda>i r. ks r = None
     \<and> (\<exists>n. r = probe msk i n \<and> (\<forall>m<n. slot_passed ks vs key (probe msk i m)))"
  have here: "?Q i i" if "ks i = None"
  proof -
    have "i = probe msk i 0 \<and> (\<forall>m<0. slot_passed ks vs key (probe msk i m))" by simp
    with that show ?thesis by blast
  qed
  have shift: "?Q i r" if "?Q ?i' r" and "slot_passed ks vs key i"
  proof -
    from that(1) obtain n where n: "ks r = None" "r = probe msk ?i' n"
      "\<forall>m<n. slot_passed ks vs key (probe msk ?i' m)" by blast
    from that(2) n(3) have "\<forall>m<Suc n. slot_passed ks vs key (probe msk i m)"
      by (rule passed_shift)
    moreover from n(2) have "r = probe msk i (Suc n)" by (simp add: probe_Suc)
    ultimately show ?thesis using n(1) by blast
  qed
  show ?case
  proof (cases "ks i")
    case None
    show ?thesis
    proof (cases "vs i = Undefined")
      case True
      with None step(2) have "r = (case T of None \<Rightarrow> i | Some t \<Rightarrow> t)" by simp
      with here [OF None] show ?thesis by (cases T) auto
    next
      case False
      with None step(2) have "f ks vs msk key (Some i) ?i' = Some r" by simp
      then have "slot_match ks key r \<or> Some i = Some r \<or> ?Q ?i' r" by (rule step(1))
      moreover from None False have "slot_passed ks vs key i"
        by (simp add: slot_passed_def slot_empty_def slot_match_def)
      ultimately show ?thesis using here [OF None] shift by blast
    qed
  next
    case (Some key2)
    show ?thesis
    proof (cases "sref key = sref key2")
      case True
      with Some step(2) have "r = i" by simp
      with Some True show ?thesis by (simp add: slot_match_def)
    next
      case False
      with Some step(2) have "f ks vs msk key T ?i' = Some r" by simp
      then have "slot_match ks key r \<or> T = Some r \<or> ?Q ?i' r" by (rule step(1))
      moreover from Some False have "slot_passed ks vs key i"
        by (simp add: slot_passed_def slot_empty_def slot_match_def)
      ultimately show ?thesis using shift by blast
    qed
  qed
qed

lemma arrays_ok_finite: "arrays_ok ks vs cap c \<Longrightarrow> finite (used_slots ks vs)"
  unfolding arrays_ok_def by (meson finite_atLeastLessThan_int finite_subset)

lemma free_slot_exists:
  assumes "arrays_ok ks vs cap c" and "c < cap"
  shows "\<exists>e. 0 \<le> e \<and> e < cap \<and> slot_empty ks vs e"
proof (rule ccontr)
  assume "\<not> ?thesis"
  then have "{0..<cap} \<subseteq> used_slots ks vs" by (auto simp: used_slots_def)
  moreover have "finite (used_slots ks vs)" using assms(1) by (rule arrays_ok_finite)
  ultimately have "card {0..<cap} \<le> card (used_slots ks vs)" by (intro card_mono)
  then have "cap \<le> int (card (used_slots ks vs))" by simp
  with assms show False by (simp add: arrays_ok_def)
qed

lemma Table_find_total:
  assumes ok: "arrays_ok ks vs cap c" and lt: "c < cap"
  shows "\<exists>r. Table_find ks vs (cap - 1) key = Some r \<and> 0 \<le> r \<and> r < cap
     \<and> (slot_match ks key r
        \<or> (ks r = None
            \<and> (\<exists>n. r = probe (cap - 1) (hash key mod cap) n
                  \<and> (\<forall>m<n. slot_passed ks vs key (probe (cap - 1) (hash key mod cap) m)))))"
proof -
  from ok obtain k where k: "k \<le> 31" "cap = 2 ^ k" by (auto simp: arrays_ok_def)
  let ?h = "hash key mod cap"
  have home: "js_and (hash key) (cap - 1) = ?h" using k by (simp add: js_and_mask)
  have h_range: "0 \<le> ?h" "?h < cap" using k by simp_all
  have pr: "probe (cap - 1) ?h n = (?h + int n) mod cap" for n
    using k h_range probe_in_range [of k ?h n] by simp
  from free_slot_exists [OF ok lt] obtain e where e: "0 \<le> e" "e < cap" "slot_empty ks vs e"
    by blast
  have "probe (cap - 1) ?h (nat ((e - ?h) mod cap)) = e"
  proof -
    have "0 \<le> (e - ?h) mod cap" using k by simp
    then have "probe (cap - 1) ?h (nat ((e - ?h) mod cap)) = (?h + (e - ?h) mod cap) mod cap"
      by (simp add: pr)
    also have "\<dots> = (?h + (e - ?h)) mod cap" by (simp add: mod_add_right_eq)
    also have "\<dots> = e" using e by simp
    finally show ?thesis .
  qed
  with e(3) have "slot_empty ks vs (probe (cap - 1) ?h (nat ((e - ?h) mod cap)))
      \<or> slot_match ks key (probe (cap - 1) ?h (nat ((e - ?h) mod cap)))" by simp
  then have "\<exists>r. Table_find_loop ks vs (cap - 1) key None ?h = Some r"
    by (rule find_loop_terminates)
  then obtain r where r: "Table_find_loop ks vs (cap - 1) key None ?h = Some r" by blast
  from find_loop_result [OF r]
  have res: "slot_match ks key r
     \<or> (ks r = None \<and> (\<exists>n. r = probe (cap - 1) ?h n
            \<and> (\<forall>m<n. slot_passed ks vs key (probe (cap - 1) ?h m))))"
    by simp
  have "0 \<le> r \<and> r < cap"
  proof (cases "slot_match ks key r")
    case True
    then have "r \<in> used_slots ks vs"
      by (auto simp: used_slots_def slot_match_def slot_empty_def split: option.splits)
    with ok show ?thesis by (auto simp: arrays_ok_def)
  next
    case False
    with res obtain n where "r = probe (cap - 1) ?h n" by blast
    then have "r = (?h + int n) mod cap" by (simp add: pr)
    with k show ?thesis by simp
  qed
  with r res home show ?thesis by (simp add: Table_find_def)
qed

lemma used_slots_insert:
  "used_slots (ks(r \<mapsto> key)) (vs(r := v)) = insert r (used_slots ks vs)"
  by (auto simp: used_slots_def slot_empty_def)

lemma arrays_ok_insert:
  assumes "arrays_ok ks vs cap c" and "0 \<le> r" and "r < cap"
  shows "arrays_ok (ks(r \<mapsto> key)) (vs(r := v)) cap (if slot_empty ks vs r then c + 1 else c)"
proof -
  have fin: "finite (used_slots ks vs)" using assms(1) by (rule arrays_ok_finite)
  have "int (card (insert r (used_slots ks vs))) \<le> (if slot_empty ks vs r then c + 1 else c)"
  proof (cases "slot_empty ks vs r")
    case True
    then have "r \<notin> used_slots ks vs" by (simp add: used_slots_def)
    with fin assms(1) True show ?thesis by (simp add: arrays_ok_def)
  next
    case False
    then have "insert r (used_slots ks vs) = used_slots ks vs" by (auto simp: used_slots_def)
    with assms(1) False show ?thesis by (simp add: arrays_ok_def)
  qed
  with assms show ?thesis by (simp add: arrays_ok_def used_slots_insert)
qed

lemma arrays_ok_value:
  assumes "arrays_ok ks vs cap c" and "ks r \<noteq> None"
  shows "arrays_ok ks (vs(r := v)) cap c"
proof -
  from assms(2) have "used_slots ks (vs(r := v)) = used_slots ks vs"
    by (auto simp: used_slots_def slot_empty_def)
  with assms(1) show ?thesis by (simp add: arrays_ok_def)
qed

lemma arrays_ok_delete:
  assumes "arrays_ok ks vs cap c"
  shows "arrays_ok (ks(r := None)) vs cap c"
proof -
  have sub: "used_slots (ks(r := None)) vs \<subseteq> used_slots ks vs"
    by (auto simp: used_slots_def slot_empty_def)
  have "finite (used_slots ks vs)" using assms by (rule arrays_ok_finite)
  with sub have "card (used_slots (ks(r := None)) vs) \<le> card (used_slots ks vs)"
    by (intro card_mono)
  with assms sub show ?thesis by (auto simp: arrays_ok_def)
qed

lemma live_below_finite: "finite (live_below t i)"
proof -
  have "live_below t i \<subseteq> {0..<i}" by (auto simp: live_below_def)
  then show ?thesis by (meson finite_atLeastLessThan_int finite_subset)
qed

lemma live_below_step:
  assumes "0 \<le> i"
  shows "live_below t (i + 1) = (if keys t i = None then live_below t i else insert i (live_below t i))"
proof -
  have "\<And>j::int. j < i + 1 \<longleftrightarrow> j < i \<or> j = i" by arith
  with assms show ?thesis by (auto simp: live_below_def)
qed

lemma live_below_card_step:
  assumes "0 \<le> i" and "keys t i \<noteq> None"
  shows "card (live_below t (i + 1)) = Suc (card (live_below t i))"
proof -
  have "i \<notin> live_below t i" by (simp add: live_below_def)
  with assms live_below_finite [of t i] show ?thesis by (simp add: live_below_step)
qed

lemma live_below_mono: "i \<le> j \<Longrightarrow> card (live_below t i) \<le> card (live_below t j)"
  by (intro card_mono live_below_finite) (auto simp: live_below_def)

text \<open>The loop of \<open>Table_grow\<close>: it returns, and the new arrays hold keys of the old table only.\<close>

lemma Table_grow_loop_ok:
  assumes "arrays_ok ks vs cap c"
    and "c \<le> int (card (live_below t i))"
    and "int (card (live_below t (capacity t))) < cap"
    and "0 \<le> i \<and> i \<le> capacity t"
    and "\<forall>j k. ks j = Some k \<longrightarrow> (\<exists>i'. keys t i' = Some k)"
  shows "\<exists>ks' vs' c'. Table_grow_loop t (cap - 1) i (ks, vs, c) = Returns (ks', vs', c')
     \<and> arrays_ok ks' vs' cap c' \<and> c' \<le> int (card (live_below t (capacity t)))
     \<and> (\<forall>j k. ks' j = Some k \<longrightarrow> (\<exists>i'. keys t i' = Some k))"
  using assms
proof (induction t "cap - 1" i "(ks, vs, c)" arbitrary: ks vs c rule: Table_grow_loop.induct)
  case (1 t i ks vs c)
  show ?case
  proof (cases "i < capacity t")
    case False
    then have "Table_grow_loop t (cap - 1) i (ks, vs, c) = Returns (ks, vs, c)"
      by (subst Table_grow_loop.simps) simp
    moreover from False "1.prems"(4) have "i = capacity t" by simp
    ultimately show ?thesis using "1.prems" by simp
  next
    case True
    show ?thesis
    proof (cases "keys t i")
      case None
      with True have eq: "Table_grow_loop t (cap - 1) i (ks, vs, c)
          = Table_grow_loop t (cap - 1) (i + 1) (ks, vs, c)"
        by (subst Table_grow_loop.simps) simp
      from None "1.prems"(4) have "live_below t (i + 1) = live_below t i"
        by (simp add: live_below_step)
      with "1.prems" have c': "c \<le> int (card (live_below t (i + 1)))" by simp
      have nx: "0 \<le> i + 1 \<and> i + 1 \<le> capacity t" using True "1.prems"(4) by simp
      from "1.hyps"(1) [OF True None "1.prems"(1) c' "1.prems"(3) nx "1.prems"(5)] eq
      show ?thesis by simp
    next
      case (Some key)
      from True "1.prems"(4) have "card (live_below t (i + 1)) \<le> card (live_below t (capacity t))"
        by (intro live_below_mono) simp
      moreover from Some "1.prems"(4) have cs: "card (live_below t (i + 1)) = Suc (card (live_below t i))"
        by (intro live_below_card_step) simp_all
      ultimately have "c < cap" using "1.prems"(2,3) by linarith
      from Table_find_total [OF "1.prems"(1) this, of key]
      obtain r where r: "Table_find ks vs (cap - 1) key = Some r" "0 \<le> r" "r < cap" by blast
      let ?ks = "ks(r \<mapsto> key)" and ?vs = "vs(r := vals t i)"
      from True Some r(1) have eq: "Table_grow_loop t (cap - 1) i (ks, vs, c)
          = Table_grow_loop t (cap - 1) (i + 1) (?ks, ?vs, c + 1)"
        by (subst Table_grow_loop.simps) simp
      have ok: "arrays_ok ?ks ?vs cap (c + 1)"
      proof -
        from arrays_ok_insert [OF "1.prems"(1) r(2,3), of key "vals t i"]
        have "arrays_ok ?ks ?vs cap (if slot_empty ks vs r then c + 1 else c)" .
        then show ?thesis by (auto simp: arrays_ok_def split: if_splits)
      qed
      have c': "c + 1 \<le> int (card (live_below t (i + 1)))"
        using "1.prems"(2) cs by simp
      have keys': "\<forall>j k. ?ks j = Some k \<longrightarrow> (\<exists>i'. keys t i' = Some k)"
        using "1.prems"(5) Some by auto
      have nx: "0 \<le> i + 1 \<and> i + 1 \<le> capacity t" using True "1.prems"(4) by simp
      from "1.hyps"(2) [OF True Some r(1) ok c' "1.prems"(3) nx keys'] eq
      show ?thesis by simp
    qed
  qed
qed

lemma Table_set_eq:
  "Table_set t key v =
     rbind (Table_reserve t)
       (\<lambda>t1. case Table_find (keys t1) (vals t1) (capacity t1 - 1) key of
                None \<Rightarrow> Diverges
              | Some ix \<Rightarrow> Returns (Table_store t1 key v ix))"
  unfolding Table_set_def Table_reserve_def Table_store_def Let_def ..

lemma arrays_ok_empty:
  assumes "3 \<le> k" and "k \<le> 31"
  shows "arrays_ok (\<lambda>_. None) (\<lambda>_. Undefined) (2 ^ k) 0"
  using assms by (auto simp: arrays_ok_def used_slots_def slot_empty_def)

lemma live_below_le_used:
  assumes "arrays_ok (keys t) (vals t) (capacity t) c"
  shows "int (card (live_below t i)) \<le> c"
proof -
  have "live_below t i \<subseteq> used_slots (keys t) (vals t)"
    by (auto simp: live_below_def used_slots_def slot_empty_def)
  moreover have "finite (used_slots (keys t) (vals t))" using assms by (rule arrays_ok_finite)
  ultimately have "card (live_below t i) \<le> card (used_slots (keys t) (vals t))"
    by (intro card_mono)
  with assms show ?thesis by (simp add: arrays_ok_def)
qed

lemma Table_grow_ok:
  assumes inv: "table_inv t"
    and k: "3 \<le> k" "k \<le> 31" and cap: "cap = 2 ^ k" and big: "capacity t \<le> cap"
  shows "\<exists>t1. Table_grow t cap = Returns t1 \<and> capacity t1 = cap
     \<and> arrays_ok (keys t1) (vals t1) cap (count t1) \<and> count t1 \<le> count t
     \<and> (\<forall>j k. keys t1 j = Some k \<longrightarrow> (\<exists>i. keys t i = Some k))"
proof -
  have cap_le: "cap \<le> 2 ^ 31"
  proof -
    have "(2::int) ^ k \<le> 2 ^ 31" using k(2) by (intro power_increasing) auto
    with cap show ?thesis by simp
  qed
  have cap_pos: "8 \<le> cap"
  proof -
    have "(2::int) ^ 3 \<le> 2 ^ k" using k(1) by (intro power_increasing) auto
    with cap show ?thesis by simp
  qed
  have live: "int (card (live_below t (capacity t))) \<le> count t \<and> count t < cap \<and> 0 \<le> capacity t"
  proof (cases "capacity t = 0 \<and> count t = 0")
    case True
    then have "live_below t (capacity t) = {}" by (auto simp: live_below_def)
    with True cap_pos show ?thesis by simp
  next
    case False
    with inv have ok: "arrays_ok (keys t) (vals t) (capacity t) (count t)"
      and load: "4 * count t \<le> 3 * capacity t" by (auto simp: table_inv_def)
    from ok have "0 < capacity t" by (auto simp: arrays_ok_def)
    moreover note live_below_le_used [OF ok, of "capacity t"] load big
    ultimately show ?thesis by linarith
  qed
  have start: "arrays_ok (\<lambda>_. None) (\<lambda>_. Undefined) cap 0"
    unfolding cap using k by (rule arrays_ok_empty)
  have "\<exists>ks' vs' c'. Table_grow_loop t (cap - 1) 0 (\<lambda>_. None, \<lambda>_. Undefined, 0) = Returns (ks', vs', c')
     \<and> arrays_ok ks' vs' cap c' \<and> c' \<le> int (card (live_below t (capacity t)))
     \<and> (\<forall>j k. ks' j = Some k \<longrightarrow> (\<exists>i'. keys t i' = Some k))"
    using start live by (intro Table_grow_loop_ok) auto
  then obtain ks' vs' c' where
    res: "Table_grow_loop t (cap - 1) 0 (\<lambda>_. None, \<lambda>_. Undefined, 0) = Returns (ks', vs', c')"
    and ok': "arrays_ok ks' vs' cap c'" and c': "c' \<le> int (card (live_below t (capacity t)))"
    and keys': "\<forall>j k. ks' j = Some k \<longrightarrow> (\<exists>i'. keys t i' = Some k)" by blast
  from cap_le have "\<not> cap > 2 ^ 32 - 1" by simp
  with res have "Table_grow t cap = Returns \<lparr>count = c', capacity = cap, keys = ks', vals = vs'\<rparr>"
    by (simp add: Table_grow_def rbind_def)
  with ok' c' keys' live show ?thesis by simp
qed

lemma Table_reserve_ok:
  assumes inv: "table_inv t"
  shows "(capacity t = 2 ^ 31 \<and> Table_reserve t = Throws ''RangeError: Invalid array length'')
     \<or> (\<exists>t1. Table_reserve t = Returns t1 \<and> table_room t1
           \<and> (\<forall>j k. keys t1 j = Some k \<longrightarrow> (\<exists>i. keys t i = Some k)))"
proof (cases "4 * (count t + 1) > 3 * capacity t")
  case False
  then have "4 * count t \<le> 3 * capacity t \<and> \<not> (capacity t = 0 \<and> count t = 0) \<or> count t < 0"
    by auto
  moreover from inv have "0 \<le> count t" by (auto simp: table_inv_def arrays_ok_def)
  ultimately have "arrays_ok (keys t) (vals t) (capacity t) (count t)"
    using inv by (auto simp: table_inv_def)
  with False show ?thesis by (auto simp: Table_reserve_def table_room_def)
next
  case True
  show ?thesis
  proof (cases "capacity t = 0 \<and> count t = 0")
    case zero: True
    from Table_grow_ok [OF inv, of 3 8] zero
    obtain t1 where t1: "Table_grow t 8 = Returns t1" "capacity t1 = 8"
      "arrays_ok (keys t1) (vals t1) 8 (count t1)" "count t1 \<le> count t"
      "\<forall>j k. keys t1 j = Some k \<longrightarrow> (\<exists>i. keys t i = Some k)" by auto
    from t1 zero have "table_room t1" by (simp add: table_room_def)
    with t1 zero True show ?thesis by (auto simp: Table_reserve_def)
  next
    case nz: False
    with inv obtain k where k: "3 \<le> k" "k \<le> 31" "capacity t = 2 ^ k"
      and load: "4 * count t \<le> 3 * capacity t" by (auto simp: table_inv_def arrays_ok_def)
    have ge8: "8 \<le> capacity t"
    proof -
      have "(2::int) ^ 3 \<le> 2 ^ k" using k(1) by (intro power_increasing) auto
      with k(3) show ?thesis by simp
    qed
    then have new_cap: "(if capacity t < 8 then 8 else capacity t * 2) = capacity t * 2" by simp
    show ?thesis
    proof (cases "k = 31")
      case True
      with k(3) have "capacity t = 2 ^ 31" by simp
      moreover from this True \<open>4 * (count t + 1) > 3 * capacity t\<close>
      have "Table_reserve t = Throws ''RangeError: Invalid array length''"
        by (simp add: Table_reserve_def Table_grow_def)
      ultimately show ?thesis by blast
    next
      case False
      with k have k': "3 \<le> Suc k" "Suc k \<le> 31" "capacity t * 2 = 2 ^ Suc k" by simp_all
      from Table_grow_ok [OF inv k'(1,2) k'(3)] ge8
      obtain t1 where t1: "Table_grow t (capacity t * 2) = Returns t1" "capacity t1 = capacity t * 2"
        "arrays_ok (keys t1) (vals t1) (capacity t * 2) (count t1)" "count t1 \<le> count t"
        "\<forall>j k. keys t1 j = Some k \<longrightarrow> (\<exists>i. keys t i = Some k)" by auto
      from t1 load ge8 have "table_room t1" by (simp add: table_room_def)
      with t1 True new_cap show ?thesis by (auto simp: Table_reserve_def)
    qed
  qed
qed

lemma table_room_lt: "table_room t \<Longrightarrow> count t < capacity t"
proof -
  assume r: "table_room t"
  then have "0 < capacity t" by (auto simp: table_room_def arrays_ok_def)
  with r show ?thesis by (simp add: table_room_def)
qed

lemma Table_store_inv:
  assumes room: "table_room t1" and r: "0 \<le> r" "r < capacity t1"
  shows "table_inv (snd (Table_store t1 key v r)) \<and> 0 < count (snd (Table_store t1 key v r))
     \<and> capacity (snd (Table_store t1 key v r)) = capacity t1"
proof -
  from room have ok: "arrays_ok (keys t1) (vals t1) (capacity t1) (count t1)"
    and load: "4 * (count t1 + 1) \<le> 3 * capacity t1" by (simp_all add: table_room_def)
  show ?thesis
  proof (cases "keys t1 r = None")
    case True
    let ?c = "if vals t1 r = Undefined then count t1 + 1 else count t1"
    from True have se: "slot_empty (keys t1) (vals t1) r \<longleftrightarrow> vals t1 r = Undefined"
      by (simp add: slot_empty_def)
    from arrays_ok_insert [OF ok r, of key v] se
    have ok': "arrays_ok ((keys t1)(r \<mapsto> key)) ((vals t1)(r := v)) (capacity t1) ?c" by simp
    have "r \<in> used_slots ((keys t1)(r \<mapsto> key)) ((vals t1)(r := v))"
      by (simp add: used_slots_def slot_empty_def)
    moreover have "finite (used_slots ((keys t1)(r \<mapsto> key)) ((vals t1)(r := v)))"
      using ok' by (rule arrays_ok_finite)
    ultimately have "0 < card (used_slots ((keys t1)(r \<mapsto> key)) ((vals t1)(r := v)))"
      by (auto simp: card_gt_0_iff)
    with ok' have pos: "0 < ?c" by (simp add: arrays_ok_def del: fun_upd_apply)
    from load have ld: "4 * ?c \<le> 3 * capacity t1" by simp
    from True have "Table_store t1 key v r
        = (True, t1\<lparr>keys := (keys t1)(r \<mapsto> key), count := ?c, vals := (vals t1)(r := v)\<rparr>)"
      by (simp add: Table_store_def Let_def)
    with ok' pos ld show ?thesis
      by (simp add: table_inv_def del: fun_upd_apply)
  next
    case False
    from arrays_ok_value [OF ok False, of v]
    have ok': "arrays_ok (keys t1) ((vals t1)(r := v)) (capacity t1) (count t1)" .
    from False have "r \<in> used_slots (keys t1) ((vals t1)(r := v))"
      by (simp add: used_slots_def slot_empty_def)
    moreover have "finite (used_slots (keys t1) ((vals t1)(r := v)))"
      using ok' by (rule arrays_ok_finite)
    ultimately have "0 < card (used_slots (keys t1) ((vals t1)(r := v)))"
      by (auto simp: card_gt_0_iff)
    with ok' have pos: "0 < count t1" by (simp add: arrays_ok_def del: fun_upd_apply)
    from False have "Table_store t1 key v r = (False, t1\<lparr>vals := (vals t1)(r := v)\<rparr>)"
      by (auto simp: Table_store_def Let_def)
    with ok' pos load show ?thesis
      by (simp add: table_inv_def del: fun_upd_apply)
  qed
qed

lemma Table_set_ok:
  assumes inv: "table_inv t"
  shows "(capacity t = 2 ^ 31 \<and> Table_set t key v = Throws ''RangeError: Invalid array length'')
     \<or> (\<exists>b t'. Table_set t key v = Returns (b, t') \<and> table_inv t' \<and> 0 < count t')"
proof -
  from Table_reserve_ok [OF inv]
  show ?thesis
  proof
    assume "capacity t = 2 ^ 31 \<and> Table_reserve t = Throws ''RangeError: Invalid array length''"
    then show ?thesis by (simp add: Table_set_eq rbind_def)
  next
    assume "\<exists>t1. Table_reserve t = Returns t1 \<and> table_room t1
           \<and> (\<forall>j k. keys t1 j = Some k \<longrightarrow> (\<exists>i. keys t i = Some k))"
    then obtain t1 where t1: "Table_reserve t = Returns t1" "table_room t1" by blast
    from t1(2) have ok: "arrays_ok (keys t1) (vals t1) (capacity t1) (count t1)"
      by (simp add: table_room_def)
    from Table_find_total [OF ok table_room_lt [OF t1(2)], of key]
    obtain r where r: "Table_find (keys t1) (vals t1) (capacity t1 - 1) key = Some r"
      "0 \<le> r" "r < capacity t1" by blast
    from t1(1) r(1) have "Table_set t key v = Returns (Table_store t1 key v r)"
      by (simp add: Table_set_eq rbind_def)
    moreover note Table_store_inv [OF t1(2) r(2,3), of key v]
    ultimately show ?thesis by (cases "Table_store t1 key v r") auto
  qed
qed

lemma table_inv_find:
  assumes inv: "table_inv t" and nz: "count t \<noteq> 0"
  shows "\<exists>r. Table_find (keys t) (vals t) (capacity t - 1) key = Some r \<and> 0 \<le> r \<and> r < capacity t
     \<and> (slot_match (keys t) key r \<or> keys t r = None)"
proof -
  from inv nz have ok: "arrays_ok (keys t) (vals t) (capacity t) (count t)"
    and load: "4 * count t \<le> 3 * capacity t" by (auto simp: table_inv_def)
  from ok have "0 < capacity t" by (auto simp: arrays_ok_def)
  with load have "count t < capacity t" by simp
  from Table_find_total [OF ok this, of key] show ?thesis by blast
qed

lemma Table_delete_ok:
  assumes inv: "table_inv t"
  shows "\<exists>b t'. Table_delete t key = Returns (b, t') \<and> table_inv t'"
proof (cases "count t = 0")
  case True
  with inv show ?thesis by (auto simp: Table_delete_def)
next
  case False
  from table_inv_find [OF inv False, of key]
  obtain r where r: "Table_find (keys t) (vals t) (capacity t - 1) key = Some r" by blast
  from inv False have ok: "arrays_ok (keys t) (vals t) (capacity t) (count t)"
    and load: "4 * count t \<le> 3 * capacity t" by (auto simp: table_inv_def)
  from arrays_ok_delete [OF ok, of r] load
  have "table_inv (t\<lparr>keys := (keys t)(r := None)\<rparr>)" by (simp add: table_inv_def)
  with False r inv show ?thesis by (auto simp: Table_delete_def)
qed

lemma Table_get_ok:
  assumes inv: "table_inv t"
  shows "\<exists>v. Table_get t key = Returns v"
proof (cases "count t = 0")
  case True
  then show ?thesis by (simp add: Table_get_def)
next
  case False
  from table_inv_find [OF inv False, of key]
  obtain r where r: "Table_find (keys t) (vals t) (capacity t - 1) key = Some r" by blast
  with False show ?thesis by (simp add: Table_get_def)
qed

lemma Table_addAll_loop_ok:
  assumes "table_inv t"
  shows "(\<exists>t'. Table_addAll_loop t other i = Returns t' \<and> table_inv t')
     \<or> Table_addAll_loop t other i = Throws ''RangeError: Invalid array length''"
  using assms
proof (induction t other i rule: Table_addAll_loop.induct)
  case (1 t other i)
  show ?case
  proof (cases "i < capacity other")
    case False
    with "1.prems" show ?thesis by (subst Table_addAll_loop.simps) simp
  next
    case True
    show ?thesis
    proof (cases "keys other i")
      case None
      with True "1.IH"(1) [OF True None "1.prems"] show ?thesis
        by (subst (1 2) Table_addAll_loop.simps) simp
    next
      case (Some key)
      from Table_set_ok [OF "1.prems", of key "vals other i"]
      show ?thesis
      proof
        assume "capacity t = 2 ^ 31
          \<and> Table_set t key (vals other i) = Throws ''RangeError: Invalid array length''"
        with True Some show ?thesis by (subst (1 2) Table_addAll_loop.simps) simp
      next
        assume "\<exists>b t'. Table_set t key (vals other i) = Returns (b, t') \<and> table_inv t' \<and> 0 < count t'"
        then obtain b t' where s: "Table_set t key (vals other i) = Returns (b, t')" "table_inv t'"
          by blast
        from "1.IH"(2) [OF True Some s(1) refl s(2)] True Some s(1) show ?thesis
          by (subst (1 2) Table_addAll_loop.simps) simp
      qed
    qed
  qed
qed

lemma findString_loop_returns:
  assumes "slot_empty (keys t) (vals t) (probe (capacity t - 1) ix n)"
    and "i + int n < capacity t"
  shows "\<exists>res. Table_findString_loop t cs h i ix = Returns res"
  using assms
proof (induction n arbitrary: i ix)
  case 0
  then show ?case
    by (subst Table_findString_loop.simps) (auto simp: slot_empty_def)
next
  case (Suc n)
  let ?ix' = "js_and (ix + 1) (capacity t - 1)"
  from Suc.prems have "slot_empty (keys t) (vals t) (probe (capacity t - 1) ?ix' n)"
    and "(i + 1) + int n < capacity t" by (simp_all add: probe_Suc)
  then have "\<exists>res. Table_findString_loop t cs h (i + 1) ?ix' = Returns res"
    by (rule Suc.IH)
  moreover from Suc.prems have "i < capacity t" by simp
  ultimately show ?case
    by (subst Table_findString_loop.simps) (auto split: option.splits)
qed

lemma Table_findString_ok:
  assumes inv: "table_inv t"
  shows "\<exists>res. Table_findString t cs h = Returns res"
proof (cases "count t = 0")
  case True
  then show ?thesis by (simp add: Table_findString_def)
next
  case False
  with inv have ok: "arrays_ok (keys t) (vals t) (capacity t) (count t)"
    and load: "4 * count t \<le> 3 * capacity t" by (auto simp: table_inv_def)
  from ok obtain k where k: "k \<le> 31" "capacity t = 2 ^ k" by (auto simp: arrays_ok_def)
  then have pos: "0 < capacity t" by simp
  with load have "count t < capacity t" by simp
  from free_slot_exists [OF ok this] obtain e where e: "0 \<le> e" "e < capacity t"
    "slot_empty (keys t) (vals t) e" by blast
  let ?cap = "capacity t" and ?home = "h mod capacity t"
  have home: "js_and h (?cap - 1) = ?home" using k by (simp add: js_and_mask)
  have hr: "0 \<le> ?home" "?home < ?cap" using pos by simp_all
  let ?n = "nat ((e - ?home) mod ?cap)"
  have n_lt: "int ?n < ?cap" using pos by simp
  have "probe (?cap - 1) ?home ?n = (?home + int ?n) mod ?cap"
    using k hr probe_in_range [of k ?home ?n] by simp
  also have "\<dots> = (?home + (e - ?home) mod ?cap) mod ?cap" using pos by simp
  also have "\<dots> = (?home + (e - ?home)) mod ?cap" by (simp add: mod_add_right_eq)
  also have "\<dots> = e" using e by simp
  finally have "slot_empty (keys t) (vals t) (probe (?cap - 1) ?home ?n)" using e(3) by simp
  moreover from n_lt have "0 + int ?n < ?cap" by simp
  ultimately have "\<exists>res. Table_findString_loop t cs h 0 ?home = Returns res"
    by (rule findString_loop_returns)
  with False home show ?thesis by (simp add: Table_findString_def)
qed

lemma reachable_table_inv: "reachable_table t \<Longrightarrow> table_inv t"
proof (induction rule: reachable_table.induct)
  case reach_new
  show ?case by (simp add: table_inv_def newTable_def slot_empty_def)
next
  case (reach_set t key v b t')
  with Table_set_ok [OF reach_set.IH, of key v] show ?case by auto
next
  case (reach_delete t key b t')
  with Table_delete_ok [OF reach_delete.IH, of key] show ?case by auto
next
  case (reach_addAll t other t')
  with Table_addAll_loop_ok [OF reach_addAll.IH, of other 0] show ?case
    by (auto simp: Table_addAll_def)
qed

lemma table_inv_free_slot:
  assumes "table_inv t"
  shows "\<exists>i. 0 \<le> i \<and> i < max 1 (capacity t) \<and> keys t i = None \<and> vals t i = Undefined"
proof (cases "capacity t = 0")
  case True
  with assms have "slot_empty (keys t) (vals t) 0" by (auto simp: table_inv_def arrays_ok_def)
  with True show ?thesis by (auto simp: slot_empty_def)
next
  case False
  with assms have ok: "arrays_ok (keys t) (vals t) (capacity t) (count t)"
    and load: "4 * count t \<le> 3 * capacity t" by (auto simp: table_inv_def)
  from ok have "0 < capacity t" by (auto simp: arrays_ok_def)
  with load have "count t < capacity t" by simp
  from free_slot_exists [OF ok this] show ?thesis by (fastforce simp: slot_empty_def)
qed

lemma Table_set_new_a: "Table_set newTable key_a (Bool False) = Returns (True, table_a)"
proof -
  have g: "Table_grow newTable 8
      = Returns \<lparr>count = 0, capacity = 8, keys = (\<lambda>_. None), vals = (\<lambda>_. Undefined)\<rparr>"
    by (simp add: Table_grow_def rbind_def newTable_def Table_grow_loop.simps)
  have h: "js_and (- 468965076) 7 = 4" by (simp add: js_and_def)
  have f: "Table_find (\<lambda>_. None) (\<lambda>_. Undefined) 7 key_a = Some 4"
    unfolding Table_find_def by (subst Table_find_loop.simps) (simp add: key_a_def h)
  have "Table_reserve newTable
      = Returns \<lparr>count = 0, capacity = 8, keys = (\<lambda>_. None), vals = (\<lambda>_. Undefined)\<rparr>"
    using g by (simp add: Table_reserve_def newTable_def)
  then show ?thesis
    by (simp add: Table_set_eq rbind_def f Table_store_def table_a_def)
qed

lemma reachable_table_a: "reachable_table table_a"
  using reach_new Table_set_new_a by (rule reach_set)


section \<open>Facts about the virtual machine\<close>

lemma callValue_native:
  assumes "0 \<le> argCount" and "argCount \<le> int (length (stack vm))"
  shows "callValue host vm (ObjNative n) argCount =
    Returns (True, vm\<lparr>stack := take (length (stack vm) - nat argCount) (stack vm)
        @ [nativeFn host n (hostCalls vm) argCount (drop (length (stack vm) - nat argCount) (stack vm))],
      hostCalls := hostCalls vm + 1\<rparr>)"
proof -
  from assms have "nat (int (length (stack vm)) - argCount) = length (stack vm) - nat argCount"
    by simp
  with assms show ?thesis by (simp add: callValue_def Let_def)
qed

lemma callValue_native_length:
  assumes "0 \<le> argCount" and "argCount < int (length (stack vm))"
    and "callValue host vm (ObjNative n) argCount = Returns (ok, vm1)"
  shows "int (length (stack vm1)) = int (length (stack vm)) - argCount + 1
    \<and> stackGet vm1 (int (length (stack vm)) - 1 - argCount) = peek vm argCount"
proof -
  from assms(1,2) have le: "argCount \<le> int (length (stack vm))" by simp
  from assms(3) callValue_native [OF assms(1) le, of host n]
  have s: "stack vm1 = take (length (stack vm) - nat argCount) (stack vm)
        @ [nativeFn host n (hostCalls vm) argCount (drop (length (stack vm) - nat argCount) (stack vm))]"
    by auto
  from assms(1,2) have len: "int (length (stack vm1)) = int (length (stack vm)) - argCount + 1"
    by (simp add: s)
  from assms(1,2) have "nat (int (length (stack vm)) - 1 - argCount) < length (stack vm) - nat argCount"
    by linarith
  with assms(1,2) have "stackGet vm1 (int (length (stack vm)) - 1 - argCount)
      = stack vm ! nat (int (length (stack vm)) - 1 - argCount)"
    by (simp add: s stackGet_def nth_append)
  moreover from assms(1,2) have "peek vm argCount = stack vm ! nat (int (length (stack vm)) - 1 - argCount)"
    by (simp add: peek_def stackGet_def)
  ultimately show ?thesis using len by simp
qed


lemma descending_Cons:
  "descending us (x # xs) \<longleftrightarrow> (\<forall>y\<in>set xs. index (us y) < index (us x)) \<and> descending us xs"
  by (auto simp: descending_def)

lemma descending_distinct: "descending us xs \<Longrightarrow> distinct xs"
proof (induction xs)
  case Nil
  show ?case by simp
next
  case (Cons x xs)
  then show ?case by (auto simp: descending_Cons)
qed

lemma descending_append:
  "descending us (xs @ ys) \<longleftrightarrow>
     descending us xs \<and> descending us ys \<and> (\<forall>x\<in>set xs. \<forall>y\<in>set ys. index (us y) < index (us x))"
  by (auto simp: descending_def sorted_wrt_append)

text \<open>An update of an object that is not in the list leaves the list alone.\<close>

lemma upvalue_list_update_other:
  assumes "u \<notin> set xs"
  shows "upvalue_list (us(u := obj)) p xs = upvalue_list us p xs"
  using assms by (induction xs arbitrary: p) auto

lemma descending_update_other:
  assumes "u \<notin> set xs"
  shows "descending (us(u := obj)) xs = descending us xs"
proof -
  from assms have "map (\<lambda>x. index ((us(u := obj)) x)) xs = map (\<lambda>x. index (us x)) xs"
    by (induction xs) auto
  then show ?thesis unfolding descending_def by (simp only:)
qed

text \<open>An update that keeps \<open>index\<close> and \<open>nxt\<close> of every object leaves the list alone.\<close>

lemma upvalue_list_same:
  assumes "\<And>x. nxt (us' x) = nxt (us x)"
  shows "upvalue_list us' p xs = upvalue_list us p xs"
  using assms by (induction xs arbitrary: p) auto

lemma descending_same:
  assumes "\<And>x. index (us' x) = index (us x)"
  shows "descending us' xs = descending us xs"
  using assms by (simp add: descending_def)

lemma vm_inv_same:
  assumes "vm_inv vm" and "frames vm' = frames vm" and "openUpvalues vm' = openUpvalues vm"
    and "\<And>x. nxt (upvalueObjs vm' x) = nxt (upvalueObjs vm x)"
    and "\<And>x. index (upvalueObjs vm' x) = index (upvalueObjs vm x)"
    and "nextRef vm \<le> nextRef vm'"
  shows "vm_inv vm'"
proof -
  from assms(1) obtain xs where xs: "upvalue_list (upvalueObjs vm) (openUpvalues vm) xs"
    "descending (upvalueObjs vm) xs" "\<forall>x\<in>set xs. x < nextRef vm"
    by (auto simp: vm_inv_def open_sorted_def)
  from xs(1) assms(3,4) have "upvalue_list (upvalueObjs vm') (openUpvalues vm') xs"
    by (simp add: upvalue_list_same [of "upvalueObjs vm'" "upvalueObjs vm"])
  moreover from xs(2) assms(5) have "descending (upvalueObjs vm') xs"
    by (simp add: descending_same [of "upvalueObjs vm'" "upvalueObjs vm"])
  moreover from xs(3) assms(6) have "\<forall>x\<in>set xs. x < nextRef vm'" by auto
  ultimately show ?thesis using assms(1,2) by (auto simp: vm_inv_def open_sorted_def)
qed

lemma vm_inv_reset:
  assumes "frames vm = []" and "openUpvalues vm = None"
  shows "vm_inv vm"
proof -
  have "upvalue_list (upvalueObjs vm) None []" by simp
  with assms show ?thesis
    unfolding vm_inv_def open_sorted_def descending_def by (intro conjI exI [of _ "[]"]) auto
qed

lemma vm_inv_runtimeError: "vm_inv (runtimeError vm m)"
  by (rule vm_inv_reset) (simp_all add: runtimeError_def resetStack_def)

lemma upvalue_list_path: "upvalue_list us p xs = upvalue_path us p xs None"
  by (induction xs arbitrary: p) auto

lemma upvalue_path_append:
  "upvalue_path us p (ys @ zs) q = (\<exists>m. upvalue_path us p ys m \<and> upvalue_path us m zs q)"
  by (induction ys arbitrary: p) auto

lemma upvalue_path_update_other:
  assumes "u \<notin> set xs"
  shows "upvalue_path (us(u := obj)) p xs q = upvalue_path us p xs q"
  using assms by (induction xs arbitrary: p) auto

lemma upvalue_path_snoc:
  "upvalue_path us p (ys @ [y]) q = (upvalue_path us p ys (Some y) \<and> nxt (us y) = q)"
  by (auto simp: upvalue_path_append)

text \<open>The loop of \<open>captureUpvalue\<close> passes the upvalues above the index and stops at the rest.\<close>

lemma captureUpvalue_walk_result:
  assumes "upvalue_list us p xs"
  shows "captureUpvalue_walk us i prev p =
     Some (if takeWhile (\<lambda>x. index (us x) > i) xs = [] then prev
           else Some (last (takeWhile (\<lambda>x. index (us x) > i) xs)),
           case dropWhile (\<lambda>x. index (us x) > i) xs of [] \<Rightarrow> None | z # zs \<Rightarrow> Some z)"
  using assms
proof (induction xs arbitrary: p prev)
  case Nil
  then show ?case by (subst captureUpvalue_walk.simps) simp
next
  case (Cons x xs)
  then have p: "p = Some x" and rest: "upvalue_list us (nxt (us x)) xs" by simp_all
  show ?case
  proof (cases "index (us x) > i")
    case False
    with p show ?thesis by (subst captureUpvalue_walk.simps) simp
  next
    case True
    from Cons.IH [OF rest, of "Some x"] True p show ?thesis
      by (subst captureUpvalue_walk.simps) (simp add: last_ConsR [symmetric] del: last.simps, simp)
  qed
qed

lemma upvalue_list_head:
  "upvalue_list us p xs \<Longrightarrow> p = (case xs of [] \<Rightarrow> None | z # zs \<Rightarrow> Some z)"
  by (cases xs) auto

lemma descending_head_bound:
  assumes "descending us (z # zs)" and "index (us z) \<le> i" and "index (us z) \<noteq> i"
  shows "\<forall>x\<in>set (z # zs). index (us x) < i"
  using assms by (auto simp: descending_Cons)

lemma createUpvalue_front:
  assumes lst: "upvalue_list (upvalueObjs vm) (openUpvalues vm) xs"
    and desc: "descending (upvalueObjs vm) xs"
    and fresh: "\<forall>x\<in>set xs. x < nextRef vm"
    and below: "\<forall>x\<in>set xs. index (upvalueObjs vm x) < i"
    and res: "createUpvalue vm i None (openUpvalues vm) = (u, vm')"
  shows "u = nextRef vm \<and> upvalue_list (upvalueObjs vm') (openUpvalues vm') (u # xs)
     \<and> descending (upvalueObjs vm') (u # xs) \<and> nextRef vm' = nextRef vm + 1
     \<and> index (upvalueObjs vm' u) = i \<and> frames vm' = frames vm
     \<and> (\<forall>x\<in>set xs. upvalueObjs vm' x = upvalueObjs vm x)"
proof -
  let ?r = "nextRef vm"
  let ?us = "(upvalueObjs vm)(?r := \<lparr>index = i, nxt = openUpvalues vm, closed = Nil\<rparr>)"
  from res have u: "u = ?r"
    and vm': "vm' = vm\<lparr>upvalueObjs := ?us, openUpvalues := Some ?r, nextRef := ?r + 1\<rparr>"
    by (auto simp: createUpvalue_def Let_def)
  from fresh have notin: "?r \<notin> set xs" by auto
  from lst notin have l: "upvalue_list ?us (openUpvalues vm) xs"
    by (simp add: upvalue_list_update_other)
  from desc notin have d: "descending ?us xs" by (simp add: descending_update_other)
  from notin have same: "\<forall>x\<in>set xs. ?us x = upvalueObjs vm x" by auto
  with below have "\<forall>x\<in>set xs. index (?us x) < index (?us ?r)" by simp
  with d have d': "descending ?us (?r # xs)" by (simp add: descending_Cons)
  have c: "upvalueObjs vm' = ?us" "openUpvalues vm' = Some ?r"
    "nextRef vm' = ?r + 1" "frames vm' = frames vm" by (simp_all add: vm')
  have l': "upvalue_list ?us (Some ?r) (?r # xs)" using l by simp
  have ir: "index (?us ?r) = i" by simp
  from l' d' same ir show ?thesis unfolding u c by blast
qed

lemma createUpvalue_middle:
  assumes lst: "upvalue_list (upvalueObjs vm) (openUpvalues vm) (ys @ [pl] @ zs)"
    and desc: "descending (upvalueObjs vm) (ys @ [pl] @ zs)"
    and fresh: "\<forall>x\<in>set (ys @ [pl] @ zs). x < nextRef vm"
    and above: "\<forall>x\<in>set (ys @ [pl]). i < index (upvalueObjs vm x)"
    and below: "\<forall>x\<in>set zs. index (upvalueObjs vm x) < i"
    and res: "createUpvalue vm i (Some pl) (case zs of [] \<Rightarrow> None | z # _ \<Rightarrow> Some z) = (u, vm')"
  shows "u = nextRef vm \<and> upvalue_list (upvalueObjs vm') (openUpvalues vm') (ys @ [pl] @ u # zs)
     \<and> descending (upvalueObjs vm') (ys @ [pl] @ u # zs) \<and> nextRef vm' = nextRef vm + 1
     \<and> index (upvalueObjs vm' u) = i \<and> frames vm' = frames vm
     \<and> (\<forall>x\<in>set (ys @ [pl] @ zs). index (upvalueObjs vm' x) = index (upvalueObjs vm x))"
proof -
  define r where "r = nextRef vm"
  define q where "q = (case zs of [] \<Rightarrow> None | z # _ \<Rightarrow> Some z)"
  define us0 where "us0 = upvalueObjs vm"
  define us2 where "us2 = (us0(r := \<lparr>index = i, nxt = q, closed = Nil\<rparr>))
     (pl := ((us0(r := \<lparr>index = i, nxt = q, closed = Nil\<rparr>)) pl)\<lparr>nxt := Some r\<rparr>)"
  from res have u: "u = r" and vm': "vm' = vm\<lparr>upvalueObjs := us2, nextRef := r + 1\<rparr>"
    by (auto simp: createUpvalue_def Let_def r_def q_def us0_def us2_def)
  from fresh have r_ys: "r \<notin> set ys" and r_zs: "r \<notin> set zs" and r_pl: "r \<noteq> pl"
    by (auto simp: r_def)
  from desc have "distinct (ys @ [pl] @ zs)" by (rule descending_distinct)
  then have pl_ys: "pl \<notin> set ys" and pl_zs: "pl \<notin> set zs" by auto
  have other: "us2 x = us0 x" if "x \<noteq> r" "x \<noteq> pl" for x
    using that by (simp add: us2_def)
  have n_pl: "nxt (us2 pl) = Some r" and i_pl: "index (us2 pl) = index (us0 pl)"
    using r_pl by (simp_all add: us2_def)
  have n_r: "nxt (us2 r) = q" and i_r: "index (us2 r) = i"
    using r_pl by (simp_all add: us2_def)
  have path_same: "upvalue_path us2 a xs b = upvalue_path us0 a xs b"
    if "r \<notin> set xs" "pl \<notin> set xs" for a xs b
    using that
  proof (induction xs arbitrary: a)
    case Nil
    show ?case by simp
  next
    case (Cons x xs)
    then have "us2 x = us0 x" by (intro other) auto
    with Cons show ?case by simp
  qed
  from lst have "upvalue_path us0 (openUpvalues vm) (ys @ [pl] @ zs) None"
    by (simp add: upvalue_list_path us0_def)
  then obtain m where p1: "upvalue_path us0 (openUpvalues vm) ys (Some pl)"
    and m: "nxt (us0 pl) = m" and p2: "upvalue_path us0 m zs None"
    by (auto simp: upvalue_path_append)
  from p2 have mq: "m = q" unfolding q_def by (cases zs) auto
  have q1: "upvalue_path us2 (openUpvalues vm) ys (Some pl)"
    using p1 r_ys pl_ys by (simp add: path_same)
  have q2: "upvalue_path us2 q zs None"
    using p2 mq r_zs pl_zs by (simp add: path_same)
  from q1 q2 n_pl n_r have "upvalue_path us2 (openUpvalues vm) (ys @ [pl] @ r # zs) None"
    by (simp add: upvalue_path_append)
  then have l: "upvalue_list us2 (openUpvalues vm) (ys @ [pl] @ r # zs)"
    by (simp add: upvalue_list_path)
  have idx': "index (us2 x) = index (us0 x)" if "x \<in> set (ys @ [pl] @ zs)" for x
  proof (cases "x = pl")
    case True
    with i_pl show ?thesis by simp
  next
    case False
    moreover from that r_ys r_zs r_pl have "x \<noteq> r" by auto
    ultimately show ?thesis by (simp add: other)
  qed
  have "map (\<lambda>x. index (us2 x)) (ys @ [pl] @ zs) = map (\<lambda>x. index (us0 x)) (ys @ [pl] @ zs)"
    by (intro map_cong refl) (rule idx')
  with desc have d0: "descending us2 (ys @ [pl] @ zs)"
    unfolding descending_def us0_def by (simp only:)
  have d0': "descending us2 ((ys @ [pl]) @ zs)" using d0 by simp
  from d0' have d_y: "descending us2 (ys @ [pl])" and d_z: "descending us2 zs"
    and cross: "\<forall>x\<in>set (ys @ [pl]). \<forall>y\<in>set zs. index (us2 y) < index (us2 x)"
    unfolding descending_append by blast+
  from above idx' have ab: "\<forall>x\<in>set (ys @ [pl]). i < index (us2 x)" by (auto simp: us0_def)
  from below idx' have be: "\<forall>x\<in>set zs. index (us2 x) < i" by (auto simp: us0_def)
  have d_rz: "descending us2 (r # zs)"
    unfolding descending_Cons using d_z be i_r by simp
  have "\<forall>x\<in>set (ys @ [pl]). \<forall>y\<in>set (r # zs). index (us2 y) < index (us2 x)"
  proof (intro ballI)
    fix x y assume x: "x \<in> set (ys @ [pl])" and y: "y \<in> set (r # zs)"
    from x ab have "i < index (us2 x)" by blast
    moreover from y be i_r have "index (us2 y) \<le> i" by auto
    ultimately show "index (us2 y) < index (us2 x)" by simp
  qed
  with d_y d_rz have "descending us2 ((ys @ [pl]) @ r # zs)"
    unfolding descending_append by blast
  then have d: "descending us2 (ys @ [pl] @ r # zs)" by simp
  have c: "upvalueObjs vm' = us2" "openUpvalues vm' = openUpvalues vm"
    "nextRef vm' = nextRef vm + 1" "frames vm' = frames vm" by (simp_all add: vm' r_def)
  have idx'': "\<forall>x\<in>set (ys @ [pl] @ zs). index (us2 x) = index (upvalueObjs vm x)"
    using idx' by (simp add: us0_def)
  from l d idx'' i_r show ?thesis unfolding u c r_def [symmetric] by blast
qed

lemma captureUpvalue_ok:
  assumes lst: "upvalue_list (upvalueObjs vm) (openUpvalues vm) xs"
    and desc: "descending (upvalueObjs vm) xs"
    and fresh: "\<forall>x\<in>set xs. x < nextRef vm"
  shows "\<exists>u vm' xs'. captureUpvalue vm i = Returns (u, vm')
     \<and> upvalue_list (upvalueObjs vm') (openUpvalues vm') xs' \<and> descending (upvalueObjs vm') xs'
     \<and> (\<forall>x\<in>set xs'. x < nextRef vm') \<and> u \<in> set xs' \<and> index (upvalueObjs vm' u) = i
     \<and> frames vm' = frames vm \<and> nextRef vm \<le> nextRef vm'
     \<and> ((\<exists>x\<in>set xs. index (upvalueObjs vm x) = i) \<longrightarrow> vm' = vm \<and> xs' = xs)
     \<and> ((\<forall>x\<in>set xs. index (upvalueObjs vm x) \<noteq> i) \<longrightarrow> u = nextRef vm \<and> set xs' = insert u (set xs))"
proof -
  define us where "us = upvalueObjs vm"
  define ys where "ys = takeWhile (\<lambda>x. index (us x) > i) xs"
  define zs where "zs = dropWhile (\<lambda>x. index (us x) > i) xs"
  define q where "q = (case zs of [] \<Rightarrow> None | z # _ \<Rightarrow> Some z)"
  have xs: "xs = ys @ zs" by (simp add: ys_def zs_def)
  have above: "\<forall>x\<in>set ys. i < index (us x)" unfolding ys_def by (auto dest: set_takeWhileD)
  have stop: "\<not> i < index (us z)" if "zs = z # zs'" for z zs'
    using that hd_dropWhile [of "\<lambda>x. index (us x) > i" xs] by (simp add: zs_def)
  from desc have d_zs: "descending us zs" and d_ys: "descending us ys"
    by (simp_all add: xs descending_append us_def)
  from lst have walk: "captureUpvalue_walk us i None (openUpvalues vm)
      = Some (if ys = [] then None else Some (last ys), q)"
    unfolding us_def ys_def zs_def q_def by (rule captureUpvalue_walk_result)
  show ?thesis
  proof (cases "\<exists>z zs'. zs = z # zs' \<and> index (us z) = i")
    case True
    then obtain z zs' where z: "zs = z # zs'" "index (us z) = i" by blast
    with walk have "captureUpvalue vm i = Returns (z, vm)"
      by (simp add: captureUpvalue_def us_def q_def)
    moreover from z xs have "z \<in> set xs" by simp
    ultimately show ?thesis using lst desc fresh z(2) unfolding us_def by fastforce
  next
    case False
    have below: "\<forall>x\<in>set zs. index (us x) < i"
    proof (cases zs)
      case Nil
      then show ?thesis by simp
    next
      case (Cons z zs')
      with False stop [OF Cons] have "index (us z) \<le> i" "index (us z) \<noteq> i" by auto
      with d_zs Cons show ?thesis using descending_head_bound [of us z zs' i] by simp
    qed
    from above below have none: "\<forall>x\<in>set xs. index (us x) \<noteq> i" by (auto simp: xs)
    from False walk have cap: "captureUpvalue vm i
        = Returns (createUpvalue vm i (if ys = [] then None else Some (last ys)) q)"
      by (auto simp: captureUpvalue_def us_def q_def split: list.splits)
    obtain u vm' where cr: "createUpvalue vm i (if ys = [] then None else Some (last ys)) q = (u, vm')"
      by (cases "createUpvalue vm i (if ys = [] then None else Some (last ys)) q") blast
    show ?thesis
    proof (cases "ys = []")
      case True
      with xs have xz: "xs = zs" by simp
      from lst have "openUpvalues vm = q" unfolding q_def xz by (rule upvalue_list_head)
      with cr True have cr': "createUpvalue vm i None (openUpvalues vm) = (u, vm')" by simp
      from below xz have b: "\<forall>x\<in>set xs. index (upvalueObjs vm x) < i" by (simp add: us_def)
      from createUpvalue_front [OF lst desc fresh b cr']
      have r: "u = nextRef vm" "upvalue_list (upvalueObjs vm') (openUpvalues vm') (u # xs)"
        "descending (upvalueObjs vm') (u # xs)" "nextRef vm' = nextRef vm + 1"
        "index (upvalueObjs vm' u) = i" "frames vm' = frames vm" by blast+
      from fresh r(1,4) have f': "\<forall>x\<in>set (u # xs). x < nextRef vm'" by auto
      from none have n': "\<not> (\<exists>x\<in>set xs. index (upvalueObjs vm x) = i)" by (simp add: us_def)
      have "captureUpvalue vm i = Returns (u, vm')" using cap cr by simp
      with r f' n' show ?thesis
        by (intro exI [of _ u] exI [of _ vm'] exI [of _ "u # xs"]) auto
    next
      case False
      then have ys': "ys = butlast ys @ [last ys]" by simp
      define ys0 where "ys0 = butlast ys"
      define pl where "pl = last ys"
      from ys' xs have xs': "xs = ys0 @ [pl] @ zs" by (simp add: ys0_def pl_def)
      from cr False have cr': "createUpvalue vm i (Some pl)
          (case zs of [] \<Rightarrow> None | z # _ \<Rightarrow> Some z) = (u, vm')"
        by (simp add: pl_def q_def)
      from above ys' have ab: "\<forall>x\<in>set (ys0 @ [pl]). i < index (upvalueObjs vm x)"
        by (simp add: ys0_def pl_def us_def)
      from below have be: "\<forall>x\<in>set zs. index (upvalueObjs vm x) < i" by (simp add: us_def)
      from createUpvalue_middle [OF lst [unfolded xs'] desc [unfolded xs'] fresh [unfolded xs'] ab be cr']
      have r: "u = nextRef vm"
        "upvalue_list (upvalueObjs vm') (openUpvalues vm') (ys0 @ [pl] @ u # zs)"
        "descending (upvalueObjs vm') (ys0 @ [pl] @ u # zs)" "nextRef vm' = nextRef vm + 1"
        "index (upvalueObjs vm' u) = i" "frames vm' = frames vm" by blast+
      from fresh r(1,4) have f': "\<forall>x\<in>set (ys0 @ [pl] @ u # zs). x < nextRef vm'"
        by (fastforce simp: xs' less_Suc_eq)
      from none have n': "\<not> (\<exists>x\<in>set xs. index (upvalueObjs vm x) = i)" by (simp add: us_def)
      have s': "set (ys0 @ [pl] @ u # zs) = insert u (set xs)" by (auto simp: xs')
      have "captureUpvalue vm i = Returns (u, vm')" using cap cr by simp
      with r f' n' s' show ?thesis
        by (intro exI [of _ u] exI [of _ vm'] exI [of _ "ys0 @ [pl] @ u # zs"]) auto
    qed
  qed
qed

lemma closeUpvalues_loop_ok:
  assumes "upvalue_list us p xs" and "descending us xs"
  shows "\<exists>us' p' zs. closeUpvalues_loop stk l us p = Some (us', p')
     \<and> upvalue_list us' p' zs \<and> descending us' zs \<and> set zs \<subseteq> set xs
     \<and> (\<forall>z\<in>set zs. index (us' z) < l \<and> us' z = us z)
     \<and> (\<forall>x. x \<notin> set xs \<longrightarrow> us' x = us x)
     \<and> (\<forall>x\<in>set xs - set zs. l \<le> index (us x) \<and> index (us' x) = - 1
           \<and> closed (us' x) = stk (index (us x)))"
  using assms
proof (induction xs arbitrary: us p)
  case Nil
  then have "closeUpvalues_loop stk l us p = Some (us, None)"
    by (subst closeUpvalues_loop.simps) simp
  moreover have "upvalue_list us None []" by simp
  moreover have "descending us []" by (simp add: descending_def)
  ultimately show ?case by (intro exI [of _ us] exI [of _ None] exI [of _ "[]"]) simp
next
  case (Cons x xs)
  then have p: "p = Some x" and rest: "upvalue_list us (nxt (us x)) xs" by simp_all
  from Cons.prems(2) have d_xs: "descending us xs"
    and lower: "\<forall>y\<in>set xs. index (us y) < index (us x)" by (simp_all add: descending_Cons)
  from Cons.prems(2) have "distinct (x # xs)" by (rule descending_distinct)
  then have x_xs: "x \<notin> set xs" by simp
  show ?case
  proof (cases "index (us x) \<ge> l")
    case False
    with p have "closeUpvalues_loop stk l us p = Some (us, p)"
      by (subst closeUpvalues_loop.simps) simp
    moreover from False lower have "\<forall>z\<in>set (x # xs). index (us z) < l \<and> us z = us z" by auto
    ultimately show ?thesis using Cons.prems
      by (intro exI [of _ us] exI [of _ p] exI [of _ "x # xs"]) simp
  next
    case True
    define us1 where "us1 = us(x := (us x)\<lparr>closed := stk (index (us x)), index := - 1\<rparr>)"
    from True p have unfold: "closeUpvalues_loop stk l us p
        = closeUpvalues_loop stk l us1 (nxt (us x))"
      by (subst closeUpvalues_loop.simps) (simp add: us1_def)
    from rest x_xs have l1: "upvalue_list us1 (nxt (us x)) xs"
      unfolding us1_def by (simp add: upvalue_list_update_other)
    from d_xs x_xs have d1: "descending us1 xs"
      unfolding us1_def by (simp add: descending_update_other)
    from Cons.IH [OF l1 d1] obtain us' p' zs where
      r: "closeUpvalues_loop stk l us1 (nxt (us x)) = Some (us', p')"
        "upvalue_list us' p' zs" "descending us' zs" "set zs \<subseteq> set xs"
        "\<forall>z\<in>set zs. index (us' z) < l \<and> us' z = us1 z"
        "\<forall>y. y \<notin> set xs \<longrightarrow> us' y = us1 y"
        "\<forall>y\<in>set xs - set zs. l \<le> index (us1 y) \<and> index (us' y) = - 1
           \<and> closed (us' y) = stk (index (us1 y))"
      by blast
    have same1: "us1 y = us y" if "y \<noteq> x" for y using that by (simp add: us1_def)
    from r(4) x_xs have x_zs: "x \<notin> set zs" by auto
    have a: "\<forall>z\<in>set zs. index (us' z) < l \<and> us' z = us z"
      using r(5) x_zs same1 by (metis)
    have b: "\<forall>y. y \<notin> set (x # xs) \<longrightarrow> us' y = us y"
      using r(6) same1 by simp
    have "us' x = us1 x" using r(6) x_xs by simp
    then have cx: "index (us' x) = - 1 \<and> closed (us' x) = stk (index (us x))"
      by (simp add: us1_def)
    have c: "\<forall>y\<in>set (x # xs) - set zs. l \<le> index (us y) \<and> index (us' y) = - 1
           \<and> closed (us' y) = stk (index (us y))"
    proof
      fix y assume y: "y \<in> set (x # xs) - set zs"
      show "l \<le> index (us y) \<and> index (us' y) = - 1 \<and> closed (us' y) = stk (index (us y))"
      proof (cases "y = x")
        case True
        with cx \<open>index (us x) \<ge> l\<close> show ?thesis by simp
      next
        case False
        with y have yy: "y \<in> set xs - set zs" by simp
        from r(7) yy have "l \<le> index (us1 y) \<and> index (us' y) = - 1
           \<and> closed (us' y) = stk (index (us1 y))" by blast
        then show ?thesis by (simp add: same1 [OF False])
      qed
    qed
    from r(4) have sub: "set zs \<subseteq> set (x # xs)" by auto
    from unfold r(1) have "closeUpvalues_loop stk l us p = Some (us', p')" by simp
    with r(2,3) sub a b c show ?thesis
      by (intro exI [of _ us'] exI [of _ p'] exI [of _ zs]) blast
  qed
qed

lemma closeUpvalues_ok:
  assumes lst: "upvalue_list (upvalueObjs vm) (openUpvalues vm) xs"
    and desc: "descending (upvalueObjs vm) xs"
    and fresh: "\<forall>x\<in>set xs. x < nextRef vm"
  shows "\<exists>vm' zs. closeUpvalues vm l = Returns vm'
     \<and> upvalue_list (upvalueObjs vm') (openUpvalues vm') zs \<and> descending (upvalueObjs vm') zs
     \<and> (\<forall>x\<in>set zs. x < nextRef vm') \<and> set zs \<subseteq> set xs
     \<and> (\<forall>z\<in>set zs. index (upvalueObjs vm' z) < l \<and> upvalueObjs vm' z = upvalueObjs vm z)
     \<and> (\<forall>x\<in>set xs - set zs. l \<le> index (upvalueObjs vm x) \<and> index (upvalueObjs vm' x) = - 1
           \<and> closed (upvalueObjs vm' x) = stackGet vm (index (upvalueObjs vm x)))
     \<and> frames vm' = frames vm \<and> nextRef vm' = nextRef vm \<and> stack vm' = stack vm"
proof -
  from closeUpvalues_loop_ok [OF lst desc, of "stackGet vm" l] obtain us' p' zs where
    r: "closeUpvalues_loop (stackGet vm) l (upvalueObjs vm) (openUpvalues vm) = Some (us', p')"
      "upvalue_list us' p' zs" "descending us' zs" "set zs \<subseteq> set xs"
      "\<forall>z\<in>set zs. index (us' z) < l \<and> us' z = upvalueObjs vm z"
      "\<forall>x\<in>set xs - set zs. l \<le> index (upvalueObjs vm x) \<and> index (us' x) = - 1
           \<and> closed (us' x) = stackGet vm (index (upvalueObjs vm x))"
    by blast
  define vm' where "vm' = vm\<lparr>upvalueObjs := us', openUpvalues := p'\<rparr>"
  from r(1) have ret: "closeUpvalues vm l = Returns vm'" by (simp add: closeUpvalues_def vm'_def)
  have c: "upvalueObjs vm' = us'" "openUpvalues vm' = p'" "frames vm' = frames vm"
    "nextRef vm' = nextRef vm" "stack vm' = stack vm" by (simp_all add: vm'_def)
  from r(4) fresh have f: "\<forall>x\<in>set zs. x < nextRef vm" by auto
  have "closeUpvalues vm l = Returns vm'
     \<and> upvalue_list (upvalueObjs vm') (openUpvalues vm') zs \<and> descending (upvalueObjs vm') zs
     \<and> (\<forall>x\<in>set zs. x < nextRef vm') \<and> set zs \<subseteq> set xs
     \<and> (\<forall>z\<in>set zs. index (upvalueObjs vm' z) < l \<and> upvalueObjs vm' z = upvalueObjs vm z)
     \<and> (\<forall>x\<in>set xs - set zs. l \<le> index (upvalueObjs vm x) \<and> index (upvalueObjs vm' x) = - 1
           \<and> closed (upvalueObjs vm' x) = stackGet vm (index (upvalueObjs vm x)))
     \<and> frames vm' = frames vm \<and> nextRef vm' = nextRef vm \<and> stack vm' = stack vm"
    unfolding c using ret r(2-6) f by blast
  then show ?thesis by blast
qed

lemma open_sorted_same:
  assumes "open_sorted vm" and "openUpvalues vm' = openUpvalues vm"
    and "\<And>x. nxt (upvalueObjs vm' x) = nxt (upvalueObjs vm x)"
    and "\<And>x. index (upvalueObjs vm' x) = index (upvalueObjs vm x)"
    and "nextRef vm \<le> nextRef vm'"
  shows "open_sorted vm'"
proof -
  from assms(1) obtain xs where xs: "upvalue_list (upvalueObjs vm) (openUpvalues vm) xs"
    "descending (upvalueObjs vm) xs" "\<forall>x\<in>set xs. x < nextRef vm"
    by (auto simp: open_sorted_def)
  from xs(1) assms(2,3) have "upvalue_list (upvalueObjs vm') (openUpvalues vm') xs"
    by (simp add: upvalue_list_same [of "upvalueObjs vm'" "upvalueObjs vm"])
  moreover from xs(2) assms(4) have "descending (upvalueObjs vm') xs"
    by (simp add: descending_same [of "upvalueObjs vm'" "upvalueObjs vm"])
  moreover from xs(3) assms(5) have "\<forall>x\<in>set xs. x < nextRef vm'" by auto
  ultimately show ?thesis by (auto simp: open_sorted_def)
qed

lemma push_core [simp]:
  "frames (push vm v) = frames vm" "openUpvalues (push vm v) = openUpvalues vm"
  "upvalueObjs (push vm v) = upvalueObjs vm" "nextRef (push vm v) = nextRef vm"
  by (simp_all add: push_def)

lemma pop_core [simp]:
  "frames (snd (pop vm)) = frames vm" "openUpvalues (snd (pop vm)) = openUpvalues vm"
  "upvalueObjs (snd (pop vm)) = upvalueObjs vm" "nextRef (snd (pop vm)) = nextRef vm"
  by (simp_all add: pop_def)

lemma put_core [simp]:
  "frames (put vm d v) = frames vm" "openUpvalues (put vm d v) = openUpvalues vm"
  "upvalueObjs (put vm d v) = upvalueObjs vm" "nextRef (put vm d v) = nextRef vm"
  by (simp_all add: put_def stackSet_def)

lemma stackSet_core [simp]:
  "frames (stackSet vm i v) = frames vm" "openUpvalues (stackSet vm i v) = openUpvalues vm"
  "upvalueObjs (stackSet vm i v) = upvalueObjs vm" "nextRef (stackSet vm i v) = nextRef vm"
  by (simp_all add: stackSet_def)

lemma addIp_core [simp]:
  "frames (addIp vm f d) = frames vm" "openUpvalues (addIp vm f d) = openUpvalues vm"
  "upvalueObjs (addIp vm f d) = upvalueObjs vm" "nextRef (addIp vm f d) = nextRef vm"
  by (simp_all add: addIp_def)

lemma appendUpvalue_core [simp]:
  "frames (appendUpvalue vm c u) = frames vm" "openUpvalues (appendUpvalue vm c u) = openUpvalues vm"
  "upvalueObjs (appendUpvalue vm c u) = upvalueObjs vm" "nextRef (appendUpvalue vm c u) = nextRef vm"
  by (simp_all add: appendUpvalue_def)

lemma runtimeError_core [simp]:
  "frames (runtimeError vm m) = []" "openUpvalues (runtimeError vm m) = None"
  by (simp_all add: runtimeError_def resetStack_def)

lemma same_core_refl [simp]: "same_core vm vm"
  by (simp add: same_core_def)

lemma same_core_trans: "same_core a b \<Longrightarrow> same_core b c \<Longrightarrow> same_core a c"
  by (auto simp: same_core_def)

lemma same_core_inv: "same_core vm vm' \<Longrightarrow> vm_inv vm \<Longrightarrow> vm_inv vm'"
  unfolding same_core_def vm_inv_def
  by (auto intro: open_sorted_same [of vm vm'])

lemma same_core_basic [simp]:
  "same_core vm (push vm' v) = same_core vm vm'"
  "same_core vm (snd (pop vm')) = same_core vm vm'"
  "same_core vm (put vm' d v) = same_core vm vm'"
  "same_core vm (stackSet vm' i v) = same_core vm vm'"
  "same_core vm (addIp vm' f i) = same_core vm vm'"
  "same_core vm (appendUpvalue vm' c u) = same_core vm vm'"
  by (simp_all add: same_core_def)

lemma same_core_fields [simp]:
  "same_core vm (vm'\<lparr>stack := s\<rparr>) = same_core vm vm'"
  "same_core vm (vm'\<lparr>globals := g\<rparr>) = same_core vm vm'"
  "same_core vm (vm'\<lparr>console := co\<rparr>) = same_core vm vm'"
  "same_core vm (vm'\<lparr>pool := p\<rparr>) = same_core vm vm'"
  "same_core vm (vm'\<lparr>hostCalls := h\<rparr>) = same_core vm vm'"
  "same_core vm (vm'\<lparr>classObjs := cs\<rparr>) = same_core vm vm'"
  "same_core vm (vm'\<lparr>instanceObjs := is\<rparr>) = same_core vm vm'"
  "same_core vm (vm'\<lparr>closureObjs := cl\<rparr>) = same_core vm vm'"
  "same_core vm (vm'\<lparr>frameObjs := fo\<rparr>) = same_core vm vm'"
  by (simp_all add: same_core_def)

lemma same_core_alloc:
  "same_core vm vm' \<Longrightarrow> same_core vm (vm'\<lparr>nextRef := nextRef vm' + 1\<rparr>)"
  by (simp add: same_core_def)

lemma pop_same_core: "pop vm = (v, vm1) \<Longrightarrow> same_core vm vm1"
  by (auto simp: pop_def same_core_def split: if_splits)

lemma rbind_Returns:
  "rbind m k = Returns y \<longleftrightarrow> (\<exists>x. m = Returns x \<and> k x = Returns y)"
  by (cases m) (simp_all add: rbind_def)

lemma call_inv:
  assumes "vm_inv vm" and "call vm c a = Returns (ok, vm')"
  shows "vm_inv vm'"
proof (cases c)
  case (ObjClosure r)
  let ?fn = "func (closureObjs vm r)"
  show ?thesis
  proof (cases "a \<noteq> arity ?fn \<or> length (frames vm) = 64")
    case True
    with assms(2) ObjClosure have "\<exists>m. vm' = runtimeError vm m"
      by (auto simp: call_def Let_def split: if_splits)
    then show ?thesis by (auto simp: vm_inv_runtimeError)
  next
    case False
    with assms(2) ObjClosure have vm': "vm' = vm\<lparr>frames := frames vm @ [nextRef vm],
        frameObjs := (frameObjs vm)(nextRef vm :=
          \<lparr>closure = r, ip = 0, offset = int (length (stack vm)) - a - 1\<rparr>),
        nextRef := nextRef vm + 1\<rparr>"
      by (auto simp: call_def Let_def split: if_splits)
    from assms(1) have "open_sorted vm" by (simp add: vm_inv_def)
    then have "open_sorted vm'" by (rule open_sorted_same) (simp_all add: vm')
    moreover from assms(1) False have "length (frames vm') \<le> 64" by (simp add: vm' vm_inv_def)
    ultimately show ?thesis by (simp add: vm_inv_def)
  qed
qed (use assms(2) in \<open>simp_all add: call_def\<close>)

lemma pop_snd: "pop vm = (v, vm1) \<Longrightarrow> vm1 = snd (pop vm)"
  by simp

lemma operandE:
  assumes "operand vm f k = Returns st"
  obtains b where "k b (addIp vm f 1) = Returns st"
  using assms by (auto simp: operand_def readByte_def split: option.splits)

lemma readShortE:
  assumes "readShort vm f k = Returns st"
  obtains d where "k d (addIp (addIp vm f 1) f 1) = Returns st"
  using assms unfolding readShort_def by (auto elim!: operandE)

lemma readConstantE:
  assumes "readConstant vm f k = Returns st"
  obtains v where "k v (addIp vm f 1) = Returns st"
  using assms unfolding readConstant_def by (auto elim!: operandE)

lemma readStringE:
  assumes "readString vm f k = Returns st"
  obtains s where "k s (addIp vm f 1) = Returns st"
  using assms unfolding readString_def by (auto elim!: readConstantE split: Value.splits)

lemma vm_inv_basic [simp]:
  "vm_inv (push vm v) = vm_inv vm"
  "vm_inv (snd (pop vm)) = vm_inv vm"
  "vm_inv (put vm d v) = vm_inv vm"
  "vm_inv (stackSet vm i v) = vm_inv vm"
  "vm_inv (addIp vm f i) = vm_inv vm"
  "vm_inv (appendUpvalue vm c u) = vm_inv vm"
  by (simp_all add: vm_inv_def open_sorted_def)

lemma vm_inv_fields [simp]:
  "vm_inv (vm\<lparr>stack := s\<rparr>) = vm_inv vm"
  "vm_inv (vm\<lparr>globals := g\<rparr>) = vm_inv vm"
  "vm_inv (vm\<lparr>console := co\<rparr>) = vm_inv vm"
  "vm_inv (vm\<lparr>pool := p\<rparr>) = vm_inv vm"
  "vm_inv (vm\<lparr>hostCalls := h\<rparr>) = vm_inv vm"
  "vm_inv (vm\<lparr>classObjs := cs\<rparr>) = vm_inv vm"
  "vm_inv (vm\<lparr>instanceObjs := is\<rparr>) = vm_inv vm"
  "vm_inv (vm\<lparr>closureObjs := cl\<rparr>) = vm_inv vm"
  "vm_inv (vm\<lparr>frameObjs := fo\<rparr>) = vm_inv vm"
  by (simp_all add: vm_inv_def open_sorted_def)

lemma vm_inv_alloc: "vm_inv vm \<Longrightarrow> nextRef vm \<le> n \<Longrightarrow> vm_inv (vm\<lparr>nextRef := n\<rparr>)"
  by (erule vm_inv_same) simp_all

lemma bindMethod_inv:
  assumes "vm_inv vm" and "bindMethod vm k nm = Returns (ok, vm')"
  shows "vm_inv vm'"
  using assms
  by (cases k)
    (auto simp: bindMethod_def rbind_Returns vm_inv_runtimeError
      split: if_splits prod.splits dest!: pop_snd intro!: vm_inv_alloc)

lemma invokeFromClass_inv:
  assumes "vm_inv vm" and "invokeFromClass vm k nm a = Returns (ok, vm')"
  shows "vm_inv vm'"
  using assms
  by (cases k)
    (auto simp: invokeFromClass_def rbind_Returns vm_inv_runtimeError
      split: if_splits dest: call_inv)

lemma callValue_inv:
  assumes "vm_inv vm" and "callValue host vm c a = Returns (ok, vm')"
  shows "vm_inv vm'"
proof (cases c)
  case (ObjClass r)
  define vm1 where "vm1 = put (vm\<lparr>instanceObjs := (instanceObjs vm)(nextRef vm :=
                            \<lparr>klass = r, ifields = newTable\<rparr>),
                          nextRef := nextRef vm + 1\<rparr>)
                      a (ObjInstance (nextRef vm))"
  from assms(1) have inv1: "vm_inv vm1" by (auto simp: vm1_def intro!: vm_inv_alloc)
  from assms(2) have "rbind (Table_get (methods (classObjs vm1 r)) (initString vm1))
      (\<lambda>ini. if truthy ini then call vm1 ini a
         else if a \<noteq> 0 then Returns (False, runtimeError vm1
                      (''Expected 0 arguments but got '' @ showInt a @ ''.''))
         else Returns (True, vm1)) = Returns (ok, vm')"
    unfolding ObjClass vm1_def callValue_def Let_def Value.case .
  then obtain ini where
    r: "(if truthy ini then call vm1 ini a
         else if a \<noteq> 0 then Returns (False, runtimeError vm1
                      (''Expected 0 arguments but got '' @ showInt a @ ''.''))
         else Returns (True, vm1)) = Returns (ok, vm')"
    unfolding rbind_Returns by blast
  show ?thesis
  proof (cases "truthy ini")
    case True
    with r have "call vm1 ini a = Returns (ok, vm')" by simp
    with inv1 show ?thesis by (rule call_inv)
  next
    case False
    with r inv1 show ?thesis by (auto simp: vm_inv_runtimeError split: if_splits)
  qed
next
  case (ObjBoundMethod r x m)
  from assms(1) have "vm_inv (put vm a x)" by simp
  moreover from assms(2) ObjBoundMethod have "call (put vm a x) m a = Returns (ok, vm')"
    by (simp add: callValue_def)
  ultimately show ?thesis by (rule call_inv)
next
  case (ObjClosure r)
  with assms(2) have "call vm c a = Returns (ok, vm')" by (simp add: callValue_def)
  with assms(1) show ?thesis by (rule call_inv)
qed (use assms in \<open>auto simp: callValue_def vm_inv_runtimeError Let_def split: if_splits\<close>)

lemma invoke_inv:
  assumes "vm_inv vm" and "invoke host vm nm a = Returns (ok, vm')"
  shows "vm_inv vm'"
proof (cases "peek vm a")
  case (ObjInstance i)
  with assms(2) obtain v where
    r: "(if truthy v then callValue host (put vm a v) v a
         else invokeFromClass vm (ObjClass (klass (instanceObjs vm i))) nm a) = Returns (ok, vm')"
    by (auto simp: invoke_def rbind_Returns)
  show ?thesis
  proof (cases "truthy v")
    case True
    from assms(1) have "vm_inv (put vm a v)" by simp
    moreover from r True have "callValue host (put vm a v) v a = Returns (ok, vm')" by simp
    ultimately show ?thesis by (rule callValue_inv)
  next
    case False
    with r have "invokeFromClass vm (ObjClass (klass (instanceObjs vm i))) nm a = Returns (ok, vm')"
      by simp
    with assms(1) show ?thesis by (rule invokeFromClass_inv)
  qed
qed (use assms in \<open>auto simp: invoke_def vm_inv_runtimeError\<close>)

lemma defineMethod_inv:
  assumes "vm_inv vm" and "defineMethod vm nm = Returns vm'"
  shows "vm_inv vm'"
  using assms
  by (cases "peek vm 1") (auto simp: defineMethod_def rbind_Returns)

lemma concatenate_inv:
  assumes "vm_inv vm" and "concatenate vm = Returns vm'"
  shows "vm_inv vm'"
  using assms
  by (auto simp: concatenate_def rbind_Returns split: prod.splits Value.splits
      dest!: pop_snd intro!: vm_inv_alloc)

lemma binaryOp_inv:
  assumes "vm_inv vm"
  shows "vm_inv (snd (binaryOp vm op))"
  using assms
  by (auto simp: binaryOp_def vm_inv_runtimeError split: prod.splits Value.splits dest!: pop_snd)

lemma captureUpvalue_inv:
  assumes "vm_inv vm" and "captureUpvalue vm i = Returns (u, vm')"
  shows "vm_inv vm'"
proof -
  from assms(1) obtain xs where xs: "upvalue_list (upvalueObjs vm) (openUpvalues vm) xs"
    "descending (upvalueObjs vm) xs" "\<forall>x\<in>set xs. x < nextRef vm"
    by (auto simp: vm_inv_def open_sorted_def)
  from captureUpvalue_ok [OF xs, of i] assms(2) obtain xs' where
    "upvalue_list (upvalueObjs vm') (openUpvalues vm') xs'" "descending (upvalueObjs vm') xs'"
    "\<forall>x\<in>set xs'. x < nextRef vm'" "frames vm' = frames vm"
    by auto
  with assms(1) show ?thesis by (auto simp: vm_inv_def open_sorted_def)
qed

lemma closeUpvalues_inv:
  assumes "vm_inv vm" and "closeUpvalues vm l = Returns vm'"
  shows "vm_inv vm'"
proof -
  from assms(1) obtain xs where xs: "upvalue_list (upvalueObjs vm) (openUpvalues vm) xs"
    "descending (upvalueObjs vm) xs" "\<forall>x\<in>set xs. x < nextRef vm"
    by (auto simp: vm_inv_def open_sorted_def)
  from closeUpvalues_ok [OF xs, of l] assms(2) obtain zs where
    "upvalue_list (upvalueObjs vm') (openUpvalues vm') zs" "descending (upvalueObjs vm') zs"
    "\<forall>x\<in>set zs. x < nextRef vm'" "frames vm' = frames vm"
    by auto
  with assms(1) show ?thesis by (auto simp: vm_inv_def open_sorted_def)
qed

lemma closeUpvalues_frames:
  assumes "closeUpvalues vm l = Returns vm'"
  shows "frames vm' = frames vm"
  using assms by (auto simp: closeUpvalues_def split: option.splits)

lemma closure_loop_inv:
  assumes "vm_inv vm" and "closure_loop n vm f c = Returns st"
  shows "vm_inv (stepVM st)"
  using assms
proof (induction n arbitrary: vm)
  case 0
  then show ?case by auto
next
  case (Suc n)
  from Suc.prems(2) obtain isLocal i where
    r: "(if isLocal \<noteq> (0::nat) then
                 (case captureUpvalue (addIp (addIp vm f 1) f 1)
                         (offset (frameObjs (addIp (addIp vm f 1) f 1) f) + int i) of
                    Returns (u, vm3) \<Rightarrow> closure_loop n (appendUpvalue vm3 c (Some u)) f c
                  | Throws e \<Rightarrow> Throws e
                  | Diverges \<Rightarrow> Diverges
                  | Unmodelled \<Rightarrow> Unmodelled)
               else
                 closure_loop n
                   (appendUpvalue (addIp (addIp vm f 1) f 1) c
                      (case nthOpt (upvalues (closureObjs (addIp (addIp vm f 1) f 1)
                            (closure (frameObjs (addIp (addIp vm f 1) f 1) f)))) (int i) of
                         None \<Rightarrow> None | Some u \<Rightarrow> u))
                   f c) = Returns st"
    by (auto simp: readByte_def split: option.splits)
  show ?case
  proof (cases "isLocal \<noteq> 0")
    case True
    with r obtain u vm3 where
      c: "captureUpvalue (addIp (addIp vm f 1) f 1)
            (offset (frameObjs (addIp (addIp vm f 1) f 1) f) + int i) = Returns (u, vm3)"
      and l: "closure_loop n (appendUpvalue vm3 c (Some u)) f c = Returns st"
      by (auto split: result.splits)
    from Suc.prems(1) have "vm_inv (addIp (addIp vm f 1) f 1)" by simp
    from captureUpvalue_inv [OF this c] have "vm_inv (appendUpvalue vm3 c (Some u))" by simp
    from Suc.IH [OF this l] show ?thesis .
  next
    case False
    with r have l: "closure_loop n
                   (appendUpvalue (addIp (addIp vm f 1) f 1) c
                      (case nthOpt (upvalues (closureObjs (addIp (addIp vm f 1) f 1)
                            (closure (frameObjs (addIp (addIp vm f 1) f 1) f)))) (int i) of
                         None \<Rightarrow> None | Some u \<Rightarrow> u))
                   f c = Returns st" by simp
    from Suc.prems(1) have "vm_inv (appendUpvalue (addIp (addIp vm f 1) f 1) c
                      (case nthOpt (upvalues (closureObjs (addIp (addIp vm f 1) f 1)
                            (closure (frameObjs (addIp (addIp vm f 1) f 1) f)))) (int i) of
                         None \<Rightarrow> None | Some u \<Rightarrow> u))" by simp
    from Suc.IH [OF this l] show ?thesis .
  qed
qed

lemma afterCall_inv:
  assumes "vm_inv vm'" and "afterCall (ok, vm') = Returns st"
  shows "vm_inv (stepVM st)"
  using assms by (auto simp: afterCall_def split: if_splits)

lemma afterBind_inv:
  assumes "vm_inv vm'" and "afterBind f (ok, vm') = Returns st"
  shows "vm_inv (stepVM st)"
  using assms by (auto simp: afterBind_def split: if_splits)

lemma exec_inv_simple:
  assumes "vm_inv vm" and "exec host opc vm f = Returns st"
    and "opc \<in> {OP_CONSTANT, OP_NIL, OP_TRUE, OP_FALSE, OP_POP, OP_GET_LOCAL, OP_GET_GLOBAL,
      OP_DEFINE_GLOBAL, OP_SET_LOCAL, OP_SET_GLOBAL, OP_EQUAL, OP_GREATER, OP_LESS, OP_SUBTRACT,
      OP_MULTIPLY, OP_DIVIDE, OP_NOT, OP_NEGATE, OP_PRINT, OP_JUMP, OP_JUMP_IF_FALSE, OP_LOOP}"
  shows "vm_inv (stepVM st)"
  using assms
  by (auto elim!: operandE readShortE readConstantE readStringE
      simp: rbind_Returns vm_inv_runtimeError binaryOp_inv
      split: if_splits prod.splits Value.splits dest!: pop_snd)

lemma vm_inv_closed:
  "vm_inv (vm\<lparr>upvalueObjs := (upvalueObjs vm)(u := (upvalueObjs vm u)\<lparr>closed := v\<rparr>)\<rparr>) = vm_inv vm"
proof
  assume "vm_inv vm"
  then show "vm_inv (vm\<lparr>upvalueObjs := (upvalueObjs vm)(u := (upvalueObjs vm u)\<lparr>closed := v\<rparr>)\<rparr>)"
    by (rule vm_inv_same) simp_all
next
  assume "vm_inv (vm\<lparr>upvalueObjs := (upvalueObjs vm)(u := (upvalueObjs vm u)\<lparr>closed := v\<rparr>)\<rparr>)"
  then show "vm_inv vm" by (rule vm_inv_same) simp_all
qed

lemma exec_inv_upvalue:
  assumes "vm_inv vm" and "exec host opc vm f = Returns st"
    and "opc \<in> {OP_GET_UPVALUE, OP_CLASS, OP_INHERIT}"
  shows "vm_inv (stepVM st)"
  using assms
  by (auto elim!: operandE readStringE
      simp: rbind_Returns vm_inv_runtimeError
      split: if_splits prod.splits Value.splits option.splits dest!: pop_snd intro!: vm_inv_alloc)

lemma exec_inv_set_upvalue:
  assumes "vm_inv vm" and "exec host OP_SET_UPVALUE vm f = Returns st"
  shows "vm_inv (stepVM st)"
proof -
  define vm1 where "vm1 = addIp vm f 1"
  from assms(1) have inv1: "vm_inv vm1" by (simp add: vm1_def)
  from assms(2) obtain u where st: "st = Continue
             (if index (upvalueObjs vm1 u) < 0
              then vm1\<lparr>upvalueObjs := (upvalueObjs vm1)(u := (upvalueObjs vm1 u)\<lparr>closed := peek vm1 0\<rparr>)\<rparr>
              else stackSet vm1 (index (upvalueObjs vm1 u)) (peek vm1 0))
             (Some f)"
    unfolding vm1_def by (auto elim!: operandE split: option.splits)
  from inv1 show ?thesis unfolding st by (simp add: vm_inv_closed)
qed

lemma exec_inv_set_property:
  assumes "vm_inv vm" and "exec host OP_SET_PROPERTY vm f = Returns st"
  shows "vm_inv (stepVM st)"
proof (cases "peek vm 1")
  case (ObjInstance i)
  define vm1 where "vm1 = addIp vm f 1"
  from assms(1) have inv1: "vm_inv vm1" by (simp add: vm1_def)
  from assms(2) ObjInstance obtain t where c: "(case pop (vm1\<lparr>instanceObjs :=
                          (instanceObjs vm1)(i := (instanceObjs vm1 i)\<lparr>ifields := t\<rparr>)\<rparr>) of
                (v, vm2) \<Rightarrow> Returns (Continue (push (snd (pop vm2)) v) (Some f))) = Returns st"
    unfolding vm1_def by (auto elim!: readStringE simp: rbind_Returns)
  obtain v vm2 where p: "pop (vm1\<lparr>instanceObjs :=
                          (instanceObjs vm1)(i := (instanceObjs vm1 i)\<lparr>ifields := t\<rparr>)\<rparr>) = (v, vm2)"
    by (cases "pop (vm1\<lparr>instanceObjs :=
                          (instanceObjs vm1)(i := (instanceObjs vm1 i)\<lparr>ifields := t\<rparr>)\<rparr>)")
  from pop_snd [OF p] inv1 have "vm_inv vm2" by simp
  with c p show ?thesis by auto
qed (use assms in \<open>auto simp: vm_inv_runtimeError\<close>)

lemma exec_inv_method:
  assumes "vm_inv vm" and "exec host OP_METHOD vm f = Returns st"
  shows "vm_inv (stepVM st)"
proof -
  from assms(2) obtain nm vm2 where d: "defineMethod (addIp vm f 1) nm = Returns vm2"
    and st: "st = Continue vm2 (Some f)"
    by (auto elim!: readStringE simp: rbind_Returns)
  from assms(1) have "vm_inv (addIp vm f 1)" by simp
  from defineMethod_inv [OF this d] show ?thesis by (simp add: st)
qed

lemma exec_inv_add:
  assumes "vm_inv vm" and "exec host OP_ADD vm f = Returns st"
  shows "vm_inv (stepVM st)"
proof (cases "\<exists>sa sb. peek vm 1 = ObjString sa \<and> peek vm 0 = ObjString sb")
  case True
  with assms(2) obtain vm1 where "concatenate vm = Returns vm1" "st = Continue vm1 (Some f)"
    by (auto simp: rbind_Returns)
  with concatenate_inv [OF assms(1)] show ?thesis by simp
next
  case False
  with assms show ?thesis
    by (auto simp: vm_inv_runtimeError split: Value.splits)
qed

lemma exec_inv_bind:
  assumes "vm_inv vm" and "exec host opc vm f = Returns st"
    and "opc \<in> {OP_GET_PROPERTY, OP_GET_SUPER}"
  shows "vm_inv (stepVM st)"
proof -
  have b: "vm_inv (stepVM st)"
    if "vm_inv vm1" and "bindMethod vm1 k nm = Returns r" and "afterBind f r = Returns st"
    for vm1 k nm r
  proof -
    obtain ok vm' where r: "r = (ok, vm')" by (cases r)
    from bindMethod_inv [OF that(1) that(2) [unfolded r]] that(3) show ?thesis
      unfolding r by (rule afterBind_inv)
  qed
  from assms(3) consider "opc = OP_GET_PROPERTY" | "opc = OP_GET_SUPER" by auto
  then show ?thesis
  proof cases
    case 1
    show ?thesis
    proof (cases "peek vm 0")
      case (ObjInstance i)
      with 1 assms(2) obtain nm v where
        r: "(if truthy v then Returns (Continue (push (snd (pop (addIp vm f 1))) v) (Some f))
             else rbind (bindMethod (addIp vm f 1) (ObjClass (klass (instanceObjs (addIp vm f 1) i))) nm)
                    (afterBind f)) = Returns st"
        by (auto elim!: readStringE simp: rbind_Returns)
      show ?thesis
      proof (cases "truthy v")
        case True
        with r assms(1) show ?thesis by auto
      next
        case False
        with r obtain r' where
          "bindMethod (addIp vm f 1) (ObjClass (klass (instanceObjs (addIp vm f 1) i))) nm = Returns r'"
          "afterBind f r' = Returns st"
          by (auto simp: rbind_Returns)
        moreover from assms(1) have "vm_inv (addIp vm f 1)" by simp
        ultimately show ?thesis using b by blast
      qed
    qed (use 1 assms(2) in \<open>auto simp: vm_inv_runtimeError\<close>)
  next
    case 2
    with assms(2) obtain k nm r where
      "bindMethod (snd (pop (addIp vm f 1))) k nm = Returns r" "afterBind f r = Returns st"
      by (auto elim!: readStringE simp: rbind_Returns split: prod.splits dest!: pop_snd)
    moreover from assms(1) have "vm_inv (snd (pop (addIp vm f 1)))" by simp
    ultimately show ?thesis using b by blast
  qed
qed

lemma exec_inv_call:
  assumes "vm_inv vm" and "exec host opc vm f = Returns st"
    and "opc \<in> {OP_CALL, OP_INVOKE, OP_SUPER_INVOKE}"
  shows "vm_inv (stepVM st)"
proof -
  have c: "vm_inv (stepVM st)" if "vm_inv vm1" and "callValue host vm1 k a = Returns r"
    and "afterCall r = Returns st" for vm1 k a r
  proof -
    obtain ok vm' where r: "r = (ok, vm')" by (cases r)
    from callValue_inv [OF that(1) that(2) [unfolded r]] that(3) show ?thesis
      unfolding r by (rule afterCall_inv)
  qed
  have i: "vm_inv (stepVM st)" if "vm_inv vm1" and "invoke host vm1 nm a = Returns r"
    and "afterCall r = Returns st" for vm1 nm a r
  proof -
    obtain ok vm' where r: "r = (ok, vm')" by (cases r)
    from invoke_inv [OF that(1) that(2) [unfolded r]] that(3) show ?thesis
      unfolding r by (rule afterCall_inv)
  qed
  have s: "vm_inv (stepVM st)" if "vm_inv vm1" and "invokeFromClass vm1 k nm a = Returns r"
    and "afterCall r = Returns st" for vm1 k nm a r
  proof -
    obtain ok vm' where r: "r = (ok, vm')" by (cases r)
    from invokeFromClass_inv [OF that(1) that(2) [unfolded r]] that(3) show ?thesis
      unfolding r by (rule afterCall_inv)
  qed
  from assms(3) consider "opc = OP_CALL" | "opc = OP_INVOKE" | "opc = OP_SUPER_INVOKE" by auto
  then show ?thesis
  proof cases
    case 1
    with assms(2) obtain a r where "callValue host (addIp vm f 1) (peek (addIp vm f 1) a) a = Returns r"
      "afterCall r = Returns st"
      by (auto elim!: operandE simp: rbind_Returns)
    moreover from assms(1) have "vm_inv (addIp vm f 1)" by simp
    ultimately show ?thesis using c by blast
  next
    case 2
    with assms(2) obtain nm a r where "invoke host (addIp (addIp vm f 1) f 1) nm a = Returns r"
      "afterCall r = Returns st"
      by (auto elim!: operandE readStringE simp: rbind_Returns)
    moreover from assms(1) have "vm_inv (addIp (addIp vm f 1) f 1)" by simp
    ultimately show ?thesis using i by blast
  next
    case 3
    with assms(2) obtain k nm a r where
      "invokeFromClass (snd (pop (addIp (addIp vm f 1) f 1))) k nm a = Returns r"
      "afterCall r = Returns st"
      by (auto elim!: operandE readStringE simp: rbind_Returns split: prod.splits dest!: pop_snd)
    moreover from assms(1) have "vm_inv (snd (pop (addIp (addIp vm f 1) f 1)))" by simp
    ultimately show ?thesis using s by blast
  qed
qed

lemma exec_inv_closure:
  assumes "vm_inv vm" and "exec host OP_CLOSURE vm f = Returns st"
  shows "vm_inv (stepVM st)"
proof -
  from assms(2) obtain fn where l: "closure_loop (nat (upvalueCount fn))
             (push ((addIp vm f 1)\<lparr>closureObjs := (closureObjs (addIp vm f 1))
                      (nextRef (addIp vm f 1) := \<lparr>func = fn, upvalues = []\<rparr>),
                        nextRef := nextRef (addIp vm f 1) + 1\<rparr>)
                   (ObjClosure (nextRef (addIp vm f 1))))
             f (nextRef (addIp vm f 1)) = Returns st"
    by (auto elim!: readConstantE split: Value.splits)
  from assms(1) have "vm_inv (push ((addIp vm f 1)\<lparr>closureObjs := (closureObjs (addIp vm f 1))
                      (nextRef (addIp vm f 1) := \<lparr>func = fn, upvalues = []\<rparr>),
                        nextRef := nextRef (addIp vm f 1) + 1\<rparr>)
                   (ObjClosure (nextRef (addIp vm f 1))))"
    by (auto intro!: vm_inv_alloc)
  from closure_loop_inv [OF this l] show ?thesis .
qed

lemma exec_inv_close:
  assumes "vm_inv vm" and "exec host OP_CLOSE_UPVALUE vm f = Returns st"
  shows "vm_inv (stepVM st)"
  using assms by (auto simp: rbind_Returns dest: closeUpvalues_inv)

lemma vm_inv_frames:
  assumes "vm_inv vm" and "length fs \<le> 64"
  shows "vm_inv (vm\<lparr>frames := fs\<rparr>)"
  using assms by (simp add: vm_inv_def open_sorted_def)

lemma exec_inv_return:
  assumes "vm_inv vm" and "exec host OP_RETURN vm f = Returns st"
  shows "vm_inv (stepVM st)"
proof -
  obtain res vm1 where p: "pop vm = (res, vm1)" by (cases "pop vm")
  then have vm1: "vm1 = snd (pop vm)" by simp
  from assms(2) p obtain vm2 where c: "closeUpvalues vm1 (offset (frameObjs vm1 f)) = Returns vm2"
    and r: "(if frames vm2 = [] then Throws ''RangeError: Invalid array length''
          else if butlast (frames vm2) = [] then
            Returns (Halt OK (snd (pop (vm2\<lparr>frames := []\<rparr>))))
          else if offset (frameObjs vm2 f) < 0 then Throws ''RangeError: Invalid array length''
          else
            Returns (Continue
              (push (vm2\<lparr>frames := butlast (frames vm2),
                         stack := take (nat (offset (frameObjs vm2 f))) (stack vm2)
                           @ replicate (nat (offset (frameObjs vm2 f)) - length (stack vm2)) Undefined\<rparr>)
                    res)
              (Some (last (butlast (frames vm2)))))) = Returns st"
    by (auto simp: rbind_Returns)
  from assms(1) have "vm_inv vm1" by (simp add: vm1)
  from closeUpvalues_inv [OF this c] have inv2: "vm_inv vm2" .
  then have len: "length (butlast (frames vm2)) \<le> 64" by (auto simp: vm_inv_def)
  from inv2 have a: "vm_inv (vm2\<lparr>frames := []\<rparr>)" by (rule vm_inv_frames) simp
  from inv2 len have b: "vm_inv (vm2\<lparr>frames := butlast (frames vm2)\<rparr>)" by (rule vm_inv_frames)
  from r a b show ?thesis by (auto split: if_splits)
qed

lemma exec_inv:
  assumes "vm_inv vm" and "exec host opc vm f = Returns st"
  shows "vm_inv (stepVM st)"
proof (cases opc)
  case OP_CLOSURE
  with assms show ?thesis by (simp only: exec_inv_closure)
next
  case OP_CLOSE_UPVALUE
  with assms show ?thesis by (simp only: exec_inv_close)
next
  case OP_RETURN
  with assms show ?thesis by (simp only: exec_inv_return)
qed (use assms in \<open>simp_all only: exec_inv_simple exec_inv_upvalue exec_inv_set_upvalue exec_inv_set_property exec_inv_method exec_inv_add exec_inv_bind exec_inv_call insert_iff simp_thms\<close>)

lemma step_inv:
  assumes "vm_inv vm" and "step host vm fr = Returns st"
  shows "vm_inv (stepVM st)"
proof (cases fr)
  case None
  with assms(2) show ?thesis by (simp add: step_def)
next
  case (Some f)
  from assms(1) have inv1: "vm_inv (addIp vm f 1)" by simp
  show ?thesis
  proof (cases "nthOpt (code (currentFunction vm f)) (ip (frameObjs vm f))")
    case None
    with assms(2) Some inv1 show ?thesis by (auto simp: step_def readByte_def)
  next
    case b: (Some b)
    show ?thesis
    proof (cases "decode b")
      case None
      with assms(2) Some b inv1 show ?thesis by (auto simp: step_def readByte_def)
    next
      case opc: (Some opc)
      with assms(2) Some b have "exec host opc (addIp vm f 1) f = Returns st"
        by (simp add: step_def readByte_def)
      with inv1 show ?thesis by (rule exec_inv)
    qed
  qed
qed

lemma newVM_inv:
  assumes "newVM = Returns vm"
  shows "vm_inv vm"
proof (rule vm_inv_reset)
  from assms show "frames vm = []"
    by (auto simp: newVM_def rbind_Returns emptyVM_def)
  from assms show "openUpvalues vm = None"
    by (auto simp: newVM_def rbind_Returns emptyVM_def)
qed

lemma reachable_inv:
  assumes "reachable host c"
  shows "vm_inv (configVM c)"
  using assms
proof (induction rule: reachable.induct)
  case (reach_newVM vm)
  then show ?case by (simp add: newVM_inv)
next
  case (reach_compile vm n p)
  then show ?case by (auto intro!: vm_inv_alloc)
next
  case (reach_interpret vm fn ok vm1)
  from reach_interpret.IH have "vm_inv (push (vm\<lparr>closureObjs := (closureObjs vm)(nextRef vm := \<lparr>func = fn, upvalues = []\<rparr>),
                    nextRef := nextRef vm + 1\<rparr>)
               (ObjClosure (nextRef vm)))"
    by (auto intro!: vm_inv_alloc)
  from call_inv [OF this reach_interpret.hyps(2)] show ?case by simp
next
  case (reach_step vm fr vm1 fr1)
  from step_inv [OF _ reach_step.hyps(2)] reach_step.IH show ?case by simp
next
  case (reach_halt vm fr r vm1)
  from step_inv [OF _ reach_halt.hyps(2)] reach_halt.IH show ?case by simp
qed

lemma hashString_clock: "hashString ''clock'' = 666893752"
  by (simp add: hashString_def js_or_def js_xor_def js_mul_def roundDouble_def roundAt_def bitLength.simps)

lemma hashString_init: "hashString ''init'' = 363975136"
  by (simp add: hashString_def js_or_def js_xor_def js_mul_def roundDouble_def roundAt_def bitLength.simps)

lemma hashString_a: "hashString ''a'' = - 468965076"
  by (simp add: hashString_def js_or_def js_xor_def js_mul_def roundDouble_def roundAt_def bitLength.simps)

lemma Table_set_newTable:
  "Table_set newTable key v = Returns (True,
     \<lparr>count = 1, capacity = 8, keys = (\<lambda>_. None)(js_and (hash key) 7 \<mapsto> key),
      vals = (\<lambda>_. Undefined)(js_and (hash key) 7 := v)\<rparr>)"
proof -
  have g: "Table_grow newTable 8
      = Returns \<lparr>count = 0, capacity = 8, keys = (\<lambda>_. None), vals = (\<lambda>_. Undefined)\<rparr>"
    by (simp add: Table_grow_def rbind_def newTable_def Table_grow_loop.simps)
  have f: "Table_find (\<lambda>_. None) (\<lambda>_. Undefined) 7 key = Some (js_and (hash key) 7)"
    unfolding Table_find_def by (subst Table_find_loop.simps) simp
  have "Table_reserve newTable
      = Returns \<lparr>count = 0, capacity = 8, keys = (\<lambda>_. None), vals = (\<lambda>_. Undefined)\<rparr>"
    using g by (simp add: Table_reserve_def newTable_def)
  then show ?thesis
    by (simp add: Table_set_eq rbind_def f Table_store_def)
qed

lemma intern_clock:
  "intern newPool 0 ''clock'' = Returns (key_clock,
     \<lparr>strings = \<lparr>count = 1, capacity = 8, keys = (\<lambda>_. None)(0 \<mapsto> key_clock),
                  vals = (\<lambda>_. Undefined)(0 := Nil)\<rparr>\<rparr>)"
proof -
  have h: "js_and 666893752 7 = 0" by (simp add: js_and_def)
  have "Table_findString newTable ''clock'' 666893752 = Returns None"
    by (simp add: Table_findString_def newTable_def)
  then show ?thesis
    by (simp add: intern_def Let_def hashString_clock newPool_def rbind_def Table_set_newTable
        key_clock_def [symmetric]) (simp add: key_clock_def h)
qed

lemma intern_init:
  "intern \<lparr>strings = \<lparr>count = 1, capacity = 8, keys = (\<lambda>_. None)(0 \<mapsto> key_clock),
                  vals = (\<lambda>_. Undefined)(0 := Nil)\<rparr>\<rparr> 2 ''init''
    = Returns (key_init, \<lparr>strings = \<lparr>count = 2, capacity = 8,
                keys = (\<lambda>_. None)(0 \<mapsto> key_clock, 1 \<mapsto> key_init),
                vals = (\<lambda>_. Undefined)(0 := Nil, 1 := Nil)\<rparr>\<rparr>)"
proof -
  let ?t = "\<lparr>count = 1, capacity = 8, keys = (\<lambda>_. None)(0 \<mapsto> key_clock),
                  vals = (\<lambda>_. Undefined)(0 := Nil)\<rparr>"
  have h: "js_and 363975136 7 = 0" by (simp add: js_and_def)
  have n: "js_and 1 7 = 1" by (simp add: js_and_def)
  have fs: "Table_findString ?t ''init'' 363975136 = Returns None"
    unfolding Table_findString_def
    by (simp add: h) (subst Table_findString_loop.simps, simp add: key_clock_def n,
        subst Table_findString_loop.simps, simp)
  have f: "Table_find (keys ?t) (vals ?t) 7 key_init = Some 1"
    unfolding Table_find_def
    by (simp add: key_init_def h) (subst Table_find_loop.simps, simp add: key_clock_def n,
        subst Table_find_loop.simps, simp)
  have r: "Table_reserve ?t = Returns ?t" by (simp add: Table_reserve_def)
  have s: "Table_set ?t key_init Nil = Returns (True, \<lparr>count = 2, capacity = 8,
                keys = (\<lambda>_. None)(0 \<mapsto> key_clock, 1 \<mapsto> key_init),
                vals = (\<lambda>_. Undefined)(0 := Nil, 1 := Nil)\<rparr>)"
    using f by (simp add: Table_set_eq r rbind_def Table_store_def)
  show ?thesis
    by (simp add: intern_def Let_def hashString_init fs rbind_def key_init_def [symmetric] s)
qed

lemma newVM_eval: "newVM = Returns vm_new"
proof -
  have h: "js_and 666893752 7 = 0" by (simp add: js_and_def)
  have g: "Table_set newTable key_clock (ObjNative 1) = Returns (True,
      \<lparr>count = 1, capacity = 8, keys = (\<lambda>_. None)(0 \<mapsto> key_clock),
       vals = (\<lambda>_. Undefined)(0 := ObjNative 1)\<rparr>)"
    by (simp add: Table_set_newTable) (simp add: key_clock_def h)
  show ?thesis
    by (simp add: newVM_def intern_clock rbind_def g intern_init vm_new_def del: One_nat_def)
qed

lemma reachable_vm_new: "reachable host (Idle vm_new)"
  using newVM_eval by (rule reach_newVM)


lemma Table_get_table_a: "Table_get table_a key_a = Returns (Bool False)"
proof -
  have h: "js_and (- 468965076) 7 = 4" by (simp add: js_and_def)
  have f: "Table_find (keys table_a) (vals table_a) 7 key_a = Some 4"
    unfolding Table_find_def
    by (subst Table_find_loop.simps) (simp add: key_a_def h table_a_def)
  from f show ?thesis by (simp add: Table_get_def table_a_def)
qed

lemma Table_get_newTable: "Table_get newTable key = Returns Undefined"
  by (simp add: Table_get_def newTable_def)

text \<open>A field that holds a value JavaScript takes for false is not returned.\<close>

lemma exec_GET_PROPERTY_falsy:
  assumes "peek vm 0 = ObjInstance i"
    and "nthOpt (code (currentFunction vm f)) (ip (frameObjs vm f)) = Some b"
    and "nthOpt (constants (currentFunction vm f)) (int b) = Some (ObjString nm)"
    and "Table_get (ifields (instanceObjs vm i)) nm = Returns v" and "\<not> truthy v"
  shows "exec host OP_GET_PROPERTY vm f
    = rbind (bindMethod (addIp vm f 1) (ObjClass (klass (instanceObjs vm i))) nm) (afterBind f)"
proof -
  have c: "currentFunction (addIp vm f 1) f = currentFunction vm f"
    by (simp add: currentFunction_def addIp_def)
  have i: "instanceObjs (addIp vm f 1) = instanceObjs vm" by (simp add: addIp_def)
  from assms show ?thesis
    by (simp add: readString_def readConstant_def operand_def readByte_def c i rbind_def)
qed

lemma Table_find_loop_free:
  "ks ix = None \<Longrightarrow> vs ix = Undefined \<Longrightarrow>
   Table_find_loop ks vs msk key tomb ix = Some (case tomb of None \<Rightarrow> ix | Some t \<Rightarrow> t)"
  by (subst Table_find_loop.simps) simp

lemma Table_find_loop_tomb:
  "ks ix = None \<Longrightarrow> vs ix \<noteq> Undefined \<Longrightarrow>
   Table_find_loop ks vs msk key tomb ix = Table_find_loop ks vs msk key (Some ix) (js_and (ix + 1) msk)"
  by (subst Table_find_loop.simps) simp

lemma Table_find_loop_hit:
  "ks ix = Some key2 \<Longrightarrow> sref key = sref key2 \<Longrightarrow>
   Table_find_loop ks vs msk key tomb ix = Some ix"
  by (subst Table_find_loop.simps) simp

lemma Table_find_loop_miss:
  "ks ix = Some key2 \<Longrightarrow> sref key \<noteq> sref key2 \<Longrightarrow>
   Table_find_loop ks vs msk key tomb ix = Table_find_loop ks vs msk key tomb (js_and (ix + 1) msk)"
  by (subst Table_find_loop.simps) simp

lemma captureUpvalue_walk_None:
  "captureUpvalue_walk us i prev None = Some (prev, None)"
  by (subst captureUpvalue_walk.simps) simp

lemma captureUpvalue_walk_Some:
  "captureUpvalue_walk us i prev (Some u) =
     (if index (us u) > i then captureUpvalue_walk us i (Some u) (nxt (us u)) else Some (prev, Some u))"
  by (subst captureUpvalue_walk.simps) simp

lemma closeUpvalues_loop_None:
  "closeUpvalues_loop stk l us None = Some (us, None)"
  by (subst closeUpvalues_loop.simps) simp

lemma closeUpvalues_loop_Some:
  "closeUpvalues_loop stk l us (Some u) =
     (if index (us u) \<ge> l
      then closeUpvalues_loop stk l (us(u := (us u)\<lparr>closed := stk (index (us u)), index := - 1\<rparr>)) (nxt (us u))
      else Some (us, Some u))"
  by (subst closeUpvalues_loop.simps) simp

lemma run_steps_numeral:
  "run_steps host (numeral k) vm fr =
     (case step host vm fr of
        Returns (Continue vm1 fr1) \<Rightarrow> run_steps host (pred_numeral k) vm1 fr1
      | other \<Rightarrow> other)"
  by (simp add: numeral_eq_Suc)

lemma showNat_1: "showNat (Suc 0) = ''1''"
  by (simp add: showNat.simps digit_def char_of_def bit_0)

text \<open>The equations that evaluate a turn of the loop on a given machine.\<close>

lemmas step_eval =
  step_def readByte_def currentFunction_def nthOpt_def decode_def opcodes_def addIp_def
  operand_def readConstant_def readString_def readShort_def push_def pop_def peek_def put_def
  stackGet_def stackSet_def rbind_def Let_def isFalsey_def topFrame_def afterCall_def afterBind_def
  Table_set_def Table_get_def Table_delete_def Table_find_def js_and_def
  Table_find_loop_free Table_find_loop_tomb Table_find_loop_hit Table_find_loop_miss
  captureUpvalue_def captureUpvalue_walk_None captureUpvalue_walk_Some createUpvalue_def
  closeUpvalues_def closeUpvalues_loop_None closeUpvalues_loop_Some appendUpvalue_def
  runtimeError_def resetStack_def traceLine_def call_def callValue_def truthy_def
  key_clock_def key_init_def run_steps_numeral showNat_1 vm_new_def emptyVM_def

lemma run_steps_reachable:
  assumes "reachable host (Running vm fr)" and "run_steps host n vm fr = Returns st"
  shows "reachable host (stepConfig st)"
  using assms
proof (induction n arbitrary: vm fr)
  case 0
  then show ?case by auto
next
  case (Suc n)
  show ?case
  proof (cases "step host vm fr")
    case (Returns s)
    show ?thesis
    proof (cases s)
      case (Continue vm1 fr1)
      with Returns Suc.prems(1) have "reachable host (Running vm1 fr1)"
        by (auto intro: reach_step)
      moreover from Suc.prems(2) Returns Continue have "run_steps host n vm1 fr1 = Returns st" by simp
      ultimately show ?thesis by (rule Suc.IH)
    next
      case (Halt r vm1)
      with Returns Suc.prems(1) have "reachable host (Idle vm1)" by (auto intro: reach_halt)
      moreover from Suc.prems(2) Returns Halt have "st = Halt r vm1" by simp
      ultimately show ?thesis by simp
    qed
  qed (use Suc.prems(2) in simp_all)
qed









lemma reachable_rec: "reachable host (Running (vm_rec p) (Some 7))"
proof -
  let ?vm = "vm_new\<lparr>pool := p, nextRef := 6\<rparr>"
  have "reachable host (Idle ?vm)"
    by (rule reach_compile [OF reachable_vm_new]) (simp add: vm_new_def)
  moreover have "call (push (?vm\<lparr>closureObjs :=
            (closureObjs ?vm)(nextRef ?vm := \<lparr>func = fn_rec, upvalues = []\<rparr>),
            nextRef := nextRef ?vm + 1\<rparr>)
          (ObjClosure (nextRef ?vm)))
        (ObjClosure (nextRef ?vm)) 0 = Returns (True, vm_rec p)"
    by (simp add: call_def push_def vm_rec_def fn_rec_def vm_new_def emptyVM_def Let_def)
  ultimately have "reachable host (Running (vm_rec p) (topFrame (vm_rec p)))"
    by (rule reach_interpret)
  then show ?thesis by (simp add: topFrame_def vm_rec_def)
qed

lemma vm_deep_facts:
  "run_steps host 128 (vm_rec p) (Some 7) = Returns (Continue (vm_deep host p) (Some 71))
    \<and> length (frames (vm_deep host p)) = 64
    \<and> func (closureObjs (vm_deep host p) 8) = fn_f
    \<and> console (vm_deep host p) = []
    \<and> (\<exists>vm'. run_steps host 2 (vm_deep host p) (Some 71) = Returns (Halt RUNTIME_ERROR vm')
          \<and> frames vm' = [] \<and> hd (console vm') = ''Stack overflow.'')"
proof -
  have "\<exists>vm. run_steps host 128 (vm_rec p) (Some 7) = Returns (Continue vm (Some 71))
    \<and> length (frames vm) = 64
    \<and> func (closureObjs vm 8) = fn_f
    \<and> console vm = []
    \<and> (\<exists>vm'. run_steps host 2 vm (Some 71) = Returns (Halt RUNTIME_ERROR vm')
          \<and> frames vm' = [] \<and> hd (console vm') = ''Stack overflow.'')"
    by (simp add: vm_rec_def fn_rec_def fn_f_def key_f_def step_eval)
  then obtain vm where r: "run_steps host 128 (vm_rec p) (Some 7) = Returns (Continue vm (Some 71))"
    and f: "length (frames vm) = 64 \<and> func (closureObjs vm 8) = fn_f
    \<and> console vm = []
    \<and> (\<exists>vm'. run_steps host 2 vm (Some 71) = Returns (Halt RUNTIME_ERROR vm')
          \<and> frames vm' = [] \<and> hd (console vm') = ''Stack overflow.'')"
    by blast
  from r have "vm_deep host p = vm" by (simp add: vm_deep_def)
  with r f show ?thesis by simp
qed

lemma reachable_deep: "reachable host (Running (vm_deep host p) (Some 71))"
proof -
  from vm_deep_facts [of host p]
  have "run_steps host 128 (vm_rec p) (Some 7) = Returns (Continue (vm_deep host p) (Some 71))"
    by blast
  from run_steps_reachable [OF reachable_rec this] show ?thesis by simp
qed

lemma run_steps_Throws:
  assumes "run_steps host n vm fr = Throws e"
  shows "run_loop host vm fr = Some (Throws e)"
  using assms
proof (induction n arbitrary: vm fr)
  case 0
  then show ?case by simp
next
  case (Suc n)
  show ?case
  proof (cases "step host vm fr")
    case (Returns s)
    show ?thesis
    proof (cases s)
      case (Continue vm1 fr1)
      with Returns Suc.prems have "run_steps host n vm1 fr1 = Throws e" by simp
      then have "run_loop host vm1 fr1 = Some (Throws e)" by (rule Suc.IH)
      with Returns Continue show ?thesis by (subst run_loop.simps) simp
    next
      case (Halt r vm1)
      with Returns Suc.prems show ?thesis by simp
    qed
  next
    case (Throws e')
    with Suc.prems have "e' = e" by simp
    with Throws show ?thesis by (subst run_loop.simps) simp
  qed (use Suc.prems in simp_all)
qed

lemma run_steps_Halt:
  assumes "run_steps host n vm fr = Returns (Halt r vm')"
  shows "run_loop host vm fr = Some (Returns (r, vm'))"
  using assms
proof (induction n arbitrary: vm fr)
  case 0
  then show ?case by simp
next
  case (Suc n)
  show ?case
  proof (cases "step host vm fr")
    case (Returns s)
    show ?thesis
    proof (cases s)
      case (Continue vm1 fr1)
      with Returns Suc.prems have "run_steps host n vm1 fr1 = Returns (Halt r vm')" by simp
      then have "run_loop host vm1 fr1 = Some (Returns (r, vm'))" by (rule Suc.IH)
      with Returns Continue show ?thesis by (subst run_loop.simps) simp
    next
      case (Halt r1 vm1)
      with Returns Suc.prems have "r1 = r" "vm1 = vm'" by simp_all
      with Returns Halt show ?thesis by (subst run_loop.simps) simp
    qed
  qed (use Suc.prems in simp_all)
qed

lemma reachable_sub: "reachable host (Running (vm_sub p) (Some 6))"
proof -
  let ?vm = "vm_new\<lparr>pool := p, nextRef := 5\<rparr>"
  have "reachable host (Idle ?vm)"
    by (rule reach_compile [OF reachable_vm_new]) (simp add: vm_new_def)
  moreover have "call (push (?vm\<lparr>closureObjs :=
            (closureObjs ?vm)(nextRef ?vm := \<lparr>func = fn_sub, upvalues = []\<rparr>),
            nextRef := nextRef ?vm + 1\<rparr>)
          (ObjClosure (nextRef ?vm)))
        (ObjClosure (nextRef ?vm)) 0 = Returns (True, vm_sub p)"
    by (simp add: call_def push_def vm_sub_def fn_sub_def vm_new_def emptyVM_def Let_def)
  ultimately have "reachable host (Running (vm_sub p) (topFrame (vm_sub p)))"
    by (rule reach_interpret)
  then show ?thesis by (simp add: topFrame_def vm_sub_def)
qed

lemma sub_error:
  "run_steps host 3 (vm_sub p) (Some 6) = Returns (Continue (vm_sub_error p) (Some 6))"
  by (simp add: vm_sub_def vm_sub_error_def fn_sub_def key_x_def step_eval binaryOp_def)

lemma sub_print:
  "run_steps host 6 (vm_sub p) (Some 6) = Returns (Continue (vm_sub_print p) (Some 6))"
  by (simp add: vm_sub_def vm_sub_print_def fn_sub_def key_x_def step_eval binaryOp_def printValue_def)

lemma sub_throws:
  "run_steps host 8 (vm_sub p) (Some 6) = Throws ''RangeError: Invalid array length''"
  by (simp add: vm_sub_def fn_sub_def key_x_def step_eval binaryOp_def printValue_def)

text \<open>
  What \<^verbatim>\<open>binaryOp\<close> does with an operand that is no number, and what the five instructions
  make of it: the loop goes on.
\<close>

lemma binaryOp_no_number:
  assumes "pop vm = (b, vm1)" and "pop vm1 = (a, vm2)"
    and "\<not> (\<exists>x y. a = Number x \<and> b = Number y)"
  shows "binaryOp vm op = (Some RUNTIME_ERROR, runtimeError vm2 ''Operands must be numbers.'')"
  using assms by (auto simp: binaryOp_def split: Value.splits)

lemma exec_binary_continues:
  assumes "opc \<in> {OP_GREATER, OP_LESS, OP_SUBTRACT, OP_MULTIPLY, OP_DIVIDE}"
  shows "\<exists>op. exec host opc vm f = Returns (Continue (snd (binaryOp vm op)) (Some f))"
  using assms by auto


section \<open>Claims\<close>

text \<open>
  C1. The claim: when the top of the stack is an instance whose field table maps the operand
  name to a value \<open>v\<close>, \<^verbatim>\<open>nil\<close>, \<^verbatim>\<open>false\<close> and \<open>0\<close> included, \<^verbatim>\<open>GET_PROPERTY\<close> replaces the top of the
  stack with \<open>v\<close> and neither binds a method nor reports an undefined property.

  The code tests \<^verbatim>\<open>if (value)\<close> on what \<^verbatim>\<open>fields.get(name)\<close> returns, so a field that holds
  \<^verbatim>\<open>false\<close> is taken for absent. In \<open>vm_field\<close> the instance on top of the stack has the field
  \<^verbatim>\<open>a = false\<close>; the instruction \<^verbatim>\<open>GET_PROPERTY "a"\<close> goes on to \<^verbatim>\<open>bindMethod\<close>, reports
  \<^verbatim>\<open>Undefined property 'a'.\<close> and \<^verbatim>\<open>run\<close> returns \<^verbatim>\<open>RUNTIME_ERROR\<close>.
\<close>

theorem GET_PROPERTY_false_field_is_undefined_property:
  "peek vm_field 0 = ObjInstance 1
    \<and> Table_get (ifields (instanceObjs vm_field 1)) key_a = Returns (Bool False)
    \<and> step host vm_field (Some 0)
        = Returns (Halt RUNTIME_ERROR
            (runtimeError (addIp (addIp vm_field 0 1) 0 1) (''Undefined property '' @ quoted ''a'' @ ''.'')))
    \<and> run host vm_field
        = Some (Returns (RUNTIME_ERROR,
            runtimeError (addIp (addIp vm_field 0 1) 0 1) (''Undefined property '' @ quoted ''a'' @ ''.'')))"
proof -
  let ?vm1 = "addIp vm_field 0 1"
  have p: "peek vm_field 0 = ObjInstance 1" by (simp add: vm_field_def peek_def stackGet_def emptyVM_def)
  have p1: "peek ?vm1 0 = ObjInstance 1"
    by (simp add: vm_field_def peek_def stackGet_def emptyVM_def addIp_def)
  have g: "Table_get (ifields (instanceObjs vm_field 1)) key_a = Returns (Bool False)"
    by (simp add: vm_field_def Table_get_table_a)
  have g1: "Table_get (ifields (instanceObjs ?vm1 1)) key_a = Returns (Bool False)"
    by (simp add: vm_field_def addIp_def Table_get_table_a)
  have b1: "nthOpt (code (currentFunction ?vm1 0)) (ip (frameObjs ?vm1 0)) = Some 0"
    by (simp add: vm_field_def addIp_def currentFunction_def nthOpt_def emptyVM_def)
  have k1: "nthOpt (constants (currentFunction ?vm1 0)) (int 0) = Some (ObjString key_a)"
    by (simp add: vm_field_def addIp_def currentFunction_def nthOpt_def emptyVM_def)
  have m: "Table_get (methods (classObjs (addIp ?vm1 0 1) (klass (instanceObjs ?vm1 1)))) key_a
      = Returns Undefined"
    by (simp add: vm_field_def addIp_def emptyVM_def Table_get_newTable)
  have e: "exec host OP_GET_PROPERTY ?vm1 0
      = Returns (Halt RUNTIME_ERROR
          (runtimeError (addIp ?vm1 0 1) (''Undefined property '' @ quoted ''a'' @ ''.'')))"
  proof -
    have "exec host OP_GET_PROPERTY ?vm1 0
      = rbind (bindMethod (addIp ?vm1 0 1) (ObjClass (klass (instanceObjs ?vm1 1))) key_a) (afterBind 0)"
      by (rule exec_GET_PROPERTY_falsy [OF p1 b1 k1 g1]) (simp add: truthy_def)
    also have "\<dots> = Returns (Halt RUNTIME_ERROR
          (runtimeError (addIp ?vm1 0 1) (''Undefined property '' @ quoted ''a'' @ ''.'')))"
      by (simp add: bindMethod_def m rbind_def truthy_def afterBind_def quoted_def
          del: One_nat_def) (simp add: key_a_def)
    finally show ?thesis .
  qed
  have b0: "readByte vm_field 0 = (Some 12, ?vm1)"
    by (simp add: readByte_def vm_field_def currentFunction_def nthOpt_def emptyVM_def)
  have d: "decode 12 = Some OP_GET_PROPERTY" by (simp add: decode_def opcodes_def)
  have s: "step host vm_field (Some 0)
        = Returns (Halt RUNTIME_ERROR
            (runtimeError (addIp ?vm1 0 1) (''Undefined property '' @ quoted ''a'' @ ''.'')))"
    by (simp only: step_def b0 d e option.case prod.case)
  have t: "topFrame vm_field = Some 0" by (simp add: topFrame_def vm_field_def)
  have r: "run host vm_field
        = Some (Returns (RUNTIME_ERROR,
            runtimeError (addIp ?vm1 0 1) (''Undefined property '' @ quoted ''a'' @ ''.'')))"
    unfolding run_def t by (subst run_loop.simps) (simp add: s)
  from p g s r show ?thesis by blast
qed

text \<open>
  C2. The claim: when \<^verbatim>\<open>GREATER\<close>, \<^verbatim>\<open>LESS\<close>, \<^verbatim>\<open>SUBTRACT\<close>, \<^verbatim>\<open>MULTIPLY\<close> or \<^verbatim>\<open>DIVIDE\<close> pops an
  operand that is no number, the machine reports a runtime error, the loop halts and returns
  \<^verbatim>\<open>RUNTIME_ERROR\<close>, and no further instruction of the program is executed.

  \<^verbatim>\<open>binaryOp\<close> reports the error and returns \<^verbatim>\<open>RUNTIME_ERROR\<close>, but the five cases of \<^verbatim>\<open>run\<close> are
  \<^verbatim>\<open>this.binaryOp(...); break;\<close> and drop what it returns. On \<^verbatim>\<open>nil - nil; print "x";\<close> the
  third turn reports \<^verbatim>\<open>Operands must be numbers.\<close> and the loop goes on with the stack and
  the frames reset: \<^verbatim>\<open>POP\<close>, \<^verbatim>\<open>CONSTANT\<close>, and \<^verbatim>\<open>PRINT\<close> writes \<^verbatim>\<open>x\<close>; at \<^verbatim>\<open>RETURN\<close>
  \<^verbatim>\<open>this.frames.length--\<close> on the empty array throws a \<^verbatim>\<open>RangeError\<close>, so that \<^verbatim>\<open>run\<close> does not
  return \<^verbatim>\<open>RUNTIME_ERROR\<close>.
\<close>

theorem SUBTRACT_error_does_not_halt:
  "\<forall>host p. reachable host (Running (vm_sub p) (Some 6))
    \<and> run_steps host 3 (vm_sub p) (Some 6) = Returns (Continue (vm_sub_error p) (Some 6))
    \<and> console (vm_sub_error p) = [''Operands must be numbers.'', ''[line 1] in script'']
    \<and> run_steps host 6 (vm_sub p) (Some 6) = Returns (Continue (vm_sub_print p) (Some 6))
    \<and> console (vm_sub_print p) = [''Operands must be numbers.'', ''[line 1] in script'', ''x'']
    \<and> run host (vm_sub p) = Some (Throws ''RangeError: Invalid array length'')"
proof (intro allI)
  fix host p
  have t: "topFrame (vm_sub p) = Some 6" by (simp add: topFrame_def vm_sub_def)
  from run_steps_Throws [OF sub_throws, of host p]
  have r: "run host (vm_sub p) = Some (Throws ''RangeError: Invalid array length'')"
    by (simp add: run_def t)
  have c: "console (vm_sub_error p) = [''Operands must be numbers.'', ''[line 1] in script'']"
    "console (vm_sub_print p) = [''Operands must be numbers.'', ''[line 1] in script'', ''x'']"
    by (simp_all add: vm_sub_error_def vm_sub_print_def)
  from reachable_sub [of host p] sub_error [of host p] sub_print [of host p] r c
  show "reachable host (Running (vm_sub p) (Some 6))
    \<and> run_steps host 3 (vm_sub p) (Some 6) = Returns (Continue (vm_sub_error p) (Some 6))
    \<and> console (vm_sub_error p) = [''Operands must be numbers.'', ''[line 1] in script'']
    \<and> run_steps host 6 (vm_sub p) (Some 6) = Returns (Continue (vm_sub_print p) (Some 6))
    \<and> console (vm_sub_print p) = [''Operands must be numbers.'', ''[line 1] in script'', ''x'']
    \<and> run host (vm_sub p) = Some (Throws ''RangeError: Invalid array length'')"
    by blast
qed

text \<open>
  C3. The claim: after the call of a native with \<open>argCount\<close> arguments, the arguments and the
  callee have been popped from the value stack and the result pushed: \<open>argCount + 1\<close> values
  removed, one pushed.

  The code shortens the stack by \<open>argCount\<close> only (\<^verbatim>\<open>this.stack.length -= argCount\<close>), so the
  callee stays below the result (\<open>callValue_native_length\<close>). With the native on the stack
  under two arguments, the stack after the call holds the native and the result, where the
  claim has the result alone. A closure's call does remove the callee: \<^verbatim>\<open>RETURN\<close> cuts the
  stack at \<^verbatim>\<open>frame.offset\<close>, the callee's slot.
\<close>

theorem callValue_native_leaves_callee:
  "callValue host (emptyVM\<lparr>stack := [ObjNative 1, Nil, Bool True]\<rparr>) (ObjNative 1) 2
     = Returns (True, emptyVM\<lparr>stack := [ObjNative 1, nativeFn host 1 0 2 [Nil, Bool True]],
                              hostCalls := 1\<rparr>)"
  by (simp add: callValue_def emptyVM_def Let_def)


lemma skipWhiteSpace_ex: "skipWhiteSpace (newScanner (CHR 0x22 # ''abc'')) = newScanner (CHR 0x22 # ''abc'')"
  by (subst skipWhiteSpace.simps) (simp add: newScanner_def peekChar_def charAt_def)

lemma no_quote: "\<forall>i\<ge>Suc 0. charAt (CHR 0x22 # ''abc'') i \<noteq> Some (CHR 0x22)"
proof (intro allI impI)
  fix i :: nat assume "Suc 0 \<le> i"
  then obtain j where "i = Suc j" by (cases i) auto
  then show "charAt (CHR 0x22 # ''abc'') i \<noteq> Some (CHR 0x22)"
    by (auto simp: charAt_def nth_Cons split: nat.splits)
qed

text \<open>
  C4. The claim: for every source text with a string literal that has no closing double
  quote before the end of input, \<^verbatim>\<open>scanToken\<close> terminates and returns an \<open>ERROR\<close> token.

  The loop of \<^verbatim>\<open>string()\<close> does not test \<^verbatim>\<open>done()\<close>, so on such a source it never
  returns (\<open>string_loop_None\<close>) and the check \<^verbatim>\<open>if (this.done())\<close> after it, which would
  build the \<^verbatim>\<open>"Unfinished string"\<close> token, is never reached. On the four-character source
  \<^verbatim>\<open>"abc\<close> the scanner's first \<^verbatim>\<open>scanToken\<close> does not return.
\<close>

theorem scanToken_unterminated_string_diverges:
  "scanToken (newScanner (CHR 0x22 # ''abc'')) = None"
proof -
  let ?s = "bump ((newScanner (CHR 0x22 # ''abc''))\<lparr>start := 0\<rparr>)"
  have "string_loop ?s = None"
    by (rule string_loop_None) (use no_quote in \<open>simp add: bump_def newScanner_def\<close>)
  then have "string ?s = None" by (simp add: string_def)
  then show ?thesis
    by (simp add: scanToken_def skipWhiteSpace_ex Let_def) (simp add: newScanner_def isDone_def)
qed








text \<open>
  C8. The claim: in every reachable state the frame stack holds at most 64 frames, and an
  attempt to call a closure while 64 frames are active raises the runtime error
  \<^verbatim>\<open>Stack overflow.\<close> without pushing a frame.

  \<^verbatim>\<open>call\<close> compares the argument count with the arity first. With 64 frames, the call of a
  closure of one parameter with no argument reports \<^verbatim>\<open>Expected 1 arguments but got 0.\<close>; the
  overflow is not reported.
\<close>

theorem call_at_64_frames_reports_arity:
  "length (frames vm_full) = 64
    \<and> call vm_full (ObjClosure 1) 0
        = Returns (False, runtimeError vm_full ''Expected 1 arguments but got 0.'')
    \<and> console (runtimeError vm_full ''Expected 1 arguments but got 0.'')
        \<noteq> console (runtimeError vm_full ''Stack overflow.'')
    \<and> call vm_full (ObjClosure 1) 0 \<noteq> Returns (False, runtimeError vm_full ''Stack overflow.'')"
proof -
  have s: "showInt 1 = ''1''" "showInt 0 = ''0''"
    by (simp_all add: showInt_def showNat.simps digit_def char_of_def bit_0)
  have c: "call vm_full (ObjClosure 1) 0
        = Returns (False, runtimeError vm_full ''Expected 1 arguments but got 0.'')"
    by (simp add: call_def vm_full_def emptyVM_def Let_def s)
  have d: "console (runtimeError vm_full ''Expected 1 arguments but got 0.'')
        \<noteq> console (runtimeError vm_full ''Stack overflow.'')"
    by (simp add: runtimeError_def resetStack_def)
  from d have "runtimeError vm_full ''Expected 1 arguments but got 0.''
        \<noteq> runtimeError vm_full ''Stack overflow.''" by auto
  with c d show ?thesis by (simp add: vm_full_def)
qed

text \<open>
  C8 amended: in every reachable configuration there are at most 64 frames; in a state with
  64 frames the call of a closure pushes no frame and returns \<^verbatim>\<open>false\<close> after \<^verbatim>\<open>runtimeError\<close>,
  with the message \<^verbatim>\<open>Stack overflow.\<close> when the argument count is the arity of the function
  and with \<^verbatim>\<open>Expected N arguments but got M.\<close> when it is not; \<^verbatim>\<open>runtimeError\<close> writes the message
  and the trace and leaves the frame stack empty.
\<close>

theorem frames_bounded_and_stack_overflow:
  assumes "reachable host c" and "length (frames vm) = 64"
  shows "length (frames (configVM c)) \<le> 64
    \<and> call vm (ObjClosure r) argCount
        = Returns (False, runtimeError vm
            (if argCount = arity (func (closureObjs vm r)) then ''Stack overflow.''
             else ''Expected '' @ showInt (arity (func (closureObjs vm r)))
                    @ '' arguments but got '' @ showInt argCount @ ''.''))
    \<and> frames (runtimeError vm m) = []
    \<and> console (runtimeError vm m) = console vm @ [m] @ map (traceLine vm) (rev (frames vm))"
proof -
  from assms(1) have "vm_inv (configVM c)" by (rule reachable_inv)
  then have 1: "length (frames (configVM c)) \<le> 64" by (simp add: vm_inv_def)
  from assms(2) have 2: "call vm (ObjClosure r) argCount
        = Returns (False, runtimeError vm
            (if argCount = arity (func (closureObjs vm r)) then ''Stack overflow.''
             else ''Expected '' @ showInt (arity (func (closureObjs vm r)))
                    @ '' arguments but got '' @ showInt argCount @ ''.''))"
    by (simp add: call_def Let_def)
  have 3: "frames (runtimeError vm m) = []"
    by (simp add: runtimeError_def resetStack_def)
  have 4: "console (runtimeError vm m) = console vm @ [m] @ map (traceLine vm) (rev (frames vm))"
    by (simp add: runtimeError_def resetStack_def)
  from 1 2 3 4 show ?thesis by blast
qed

theorem frames_bounded_and_stack_overflow_witness:
  "\<forall>host p. reachable host (Running (vm_deep host p) (Some 71))
    \<and> length (frames (vm_deep host p)) = 64
    \<and> call (vm_deep host p) (ObjClosure 8) 0
        = Returns (False, runtimeError (vm_deep host p) ''Stack overflow.'')
    \<and> call (vm_deep host p) (ObjClosure 8) 1
        = Returns (False, runtimeError (vm_deep host p) ''Expected 0 arguments but got 1.'')
    \<and> frames (runtimeError (vm_deep host p) ''Stack overflow.'') = []"
proof (intro allI)
  fix host p
  have s: "showInt 1 = ''1''" "showInt 0 = ''0''"
    by (simp_all add: showInt_def showNat.simps digit_def char_of_def bit_0)
  from vm_deep_facts [of host p] have l: "length (frames (vm_deep host p)) = 64"
    and a: "arity (func (closureObjs (vm_deep host p) 8)) = 0"
    by (simp_all add: fn_f_def)
  note t = frames_bounded_and_stack_overflow [where host = host
      and c = "Running (vm_deep host p) (Some 71)" and vm = "vm_deep host p" and r = 8
      and m = "''Stack overflow.''", OF reachable_deep l]
  from t [of 0] have 0: "call (vm_deep host p) (ObjClosure 8) 0
        = Returns (False, runtimeError (vm_deep host p) ''Stack overflow.'')"
    and f: "frames (runtimeError (vm_deep host p) ''Stack overflow.'') = []"
    by (simp_all add: a)
  from t [of 1] have 1: "call (vm_deep host p) (ObjClosure 8) 1
        = Returns (False, runtimeError (vm_deep host p) ''Expected 0 arguments but got 1.'')"
    by (simp add: a s)
  from reachable_deep [of host p] l 0 1 f
  show "reachable host (Running (vm_deep host p) (Some 71))
    \<and> length (frames (vm_deep host p)) = 64
    \<and> call (vm_deep host p) (ObjClosure 8) 0
        = Returns (False, runtimeError (vm_deep host p) ''Stack overflow.'')
    \<and> call (vm_deep host p) (ObjClosure 8) 1
        = Returns (False, runtimeError (vm_deep host p) ''Expected 0 arguments but got 1.'')
    \<and> frames (runtimeError (vm_deep host p) ''Stack overflow.'') = []"
    by blast
qed

text \<open>
  C9. The claim: for every string key, \<^verbatim>\<open>hashString(key)\<close> is the 32-bit FNV-1a hash of the
  character codes, every step taken modulo \<open>2 ^ 32\<close>, read as a 32-bit integer.

  The code multiplies with \<^verbatim>\<open>hash *= 16777619\<close> on doubles. After the exclusive or the
  hash is a 32-bit integer, so the exact product has up to 56 bits and is rounded to 53
  before the next ToInt32 reduces it: the low bits of the FNV-1a product are lost. On the
  one-character key \<^verbatim>\<open>"b"\<close> the exact product is \<open>- 35716716523934235\<close>, the double is
  \<open>- 35716716523934236\<close>, and the code returns \<open>- 418632220\<close> where FNV-1a is
  \<open>- 418632219\<close> (\<^verbatim>\<open>0xE70C2DE5\<close>).
\<close>

theorem hashString_not_fnv1a_at_b:
  "hashString ''b'' = - 418632220 \<and> fnv1a_32 ''b'' = - 418632219
    \<and> hashString ''b'' \<noteq> fnv1a_32 ''b''"
proof -
  have code: "hashString ''b'' = - 418632220"
    by (simp add: hashString_def js_or_def js_xor_def js_mul_def roundDouble_product_b)
  have spec: "fnv1a_32 ''b'' = - 418632219"
    by (simp add: fnv1a_32_def)
  from code spec show ?thesis by simp
qed


text \<open>
  C10. The claim: in every table reached by \<^verbatim>\<open>set\<close>, \<^verbatim>\<open>delete\<close>, \<^verbatim>\<open>get\<close>, \<^verbatim>\<open>findString\<close> and
  \<^verbatim>\<open>addAll\<close>, at least one slot of the backing arrays holds no defined value (tombstones count
  towards the 0.75 load bound), so the probe loops of \<^verbatim>\<open>#find\<close> and \<^verbatim>\<open>findString\<close> terminate
  and the exception at the end of \<^verbatim>\<open>findString\<close> is unreachable.

  For every reachable table: some slot below the capacity has neither key nor value (slot 0
  of the empty arrays of a table that was never set); \<^verbatim>\<open>#find\<close> returns whenever
  \<^verbatim>\<open>get\<close> and \<^verbatim>\<open>delete\<close> call it, and these return; \<^verbatim>\<open>set\<close> and \<^verbatim>\<open>addAll\<close> return unless
  \<^verbatim>\<open>new Array\<close> refuses to double a table of \<open>2 ^ 31\<close> slots; \<^verbatim>\<open>findString\<close> returns a string
  or \<^verbatim>\<open>undefined\<close> and never throws. The values set may be any, \<^verbatim>\<open>undefined\<close> included.
\<close>

theorem table_probe_loops_terminate:
  assumes "reachable_table t"
  shows "(\<exists>i. 0 \<le> i \<and> i < max 1 (capacity t) \<and> keys t i = None \<and> vals t i = Undefined)
    \<and> (count t \<noteq> 0 \<longrightarrow> (\<exists>r. Table_find (keys t) (vals t) (capacity t - 1) key = Some r))
    \<and> (\<exists>x. Table_get t key = Returns x)
    \<and> (\<exists>b t'. Table_delete t key = Returns (b, t'))
    \<and> ((\<exists>b t'. Table_set t key v = Returns (b, t'))
         \<or> Table_set t key v = Throws ''RangeError: Invalid array length'')
    \<and> ((\<exists>t'. Table_addAll t other = Returns t')
         \<or> Table_addAll t other = Throws ''RangeError: Invalid array length'')
    \<and> (\<exists>res. Table_findString t cs h = Returns res)"
proof -
  from assms have inv: "table_inv t" by (rule reachable_table_inv)
  have 1: "\<exists>i. 0 \<le> i \<and> i < max 1 (capacity t) \<and> keys t i = None \<and> vals t i = Undefined"
    using inv by (rule table_inv_free_slot)
  have 2: "count t \<noteq> 0 \<longrightarrow> (\<exists>r. Table_find (keys t) (vals t) (capacity t - 1) key = Some r)"
    using table_inv_find [OF inv, of key] by blast
  have 3: "\<exists>x. Table_get t key = Returns x" using inv by (rule Table_get_ok)
  have 4: "\<exists>b t'. Table_delete t key = Returns (b, t')"
    using Table_delete_ok [OF inv, of key] by blast
  have 5: "(\<exists>b t'. Table_set t key v = Returns (b, t'))
         \<or> Table_set t key v = Throws ''RangeError: Invalid array length''"
    using Table_set_ok [OF inv, of key v] by blast
  have 6: "(\<exists>t'. Table_addAll t other = Returns t')
         \<or> Table_addAll t other = Throws ''RangeError: Invalid array length''"
    using Table_addAll_loop_ok [OF inv, of other 0] unfolding Table_addAll_def by blast
  have 7: "\<exists>res. Table_findString t cs h = Returns res" using inv by (rule Table_findString_ok)
  from 1 2 3 4 5 6 7 show ?thesis by blast
qed

theorem table_probe_loops_terminate_witness:
  "reachable_table table_a
    \<and> (\<exists>i. 0 \<le> i \<and> i < max 1 (capacity table_a) \<and> keys table_a i = None \<and> vals table_a i = Undefined)
    \<and> count table_a \<noteq> 0
    \<and> (\<exists>r. Table_find (keys table_a) (vals table_a) (capacity table_a - 1) key_a = Some r)
    \<and> (\<exists>x. Table_get table_a key_a = Returns x)
    \<and> (\<exists>res. Table_findString table_a ''a'' (- 468965076) = Returns res)"
proof -
  have nz: "count table_a \<noteq> 0" by (simp add: table_a_def)
  from table_probe_loops_terminate [OF reachable_table_a, of key_a Nil newTable "''a''" "- 468965076"]
    reachable_table_a nz
  show ?thesis by blast
qed


end
